theory Spec2Isabelle
  imports Main
begin

section \<open>The event producer of Hallon (ext/hallon/events.c)\<close>

text \<open>
  The file under verification holds one function, \<^verbatim>\<open>event_producer\<close>, the body of the
  Ruby thread that forwards libspotify events to a Ruby queue:
  \<^verbatim>\<open>
  28  VALUE event_producer(void *_session_data)
  33    do {
  42      hn_proc_without_gvl(hn_sem_wait_nogvl, session_data->event_full);
  45      VALUE ruby_event = session_data->event->handler(session_data->event->data);
  48      if (ruby_event == Qnil) break;
  51      rb_funcall3(session_data->event_queue, push, 1, &ruby_event);
  52      hn_proc_without_gvl(hn_sem_post_nogvl, session_data->event_empty);
  53    } while(1);
  55    return Qtrue;
  \<close>
  The thread runs beside the libspotify callback, which the comment of lines 11 to 27
  describes (\<^verbatim>\<open>event_empty.wait; fill work queue; event_full.post\<close>). The model is a
  two-thread transition system: every line of the loop is one or more atomic steps of the
  producer, a scheduler token selects the thread that moves next, and a run is the
  execution of a list of tokens.
\<close>

subsection \<open>Data\<close>

text \<open>
  A Ruby \<^verbatim>\<open>VALUE\<close>: the three special constants of ruby.h and object references. The
  loop compares values by identity only (\<^verbatim>\<open>ruby_event == Qnil\<close>).
\<close>

datatype VALUE = Qfalse | Qtrue | Qnil | Obj nat

text \<open>The two semaphore fields of \<^verbatim>\<open>hn_session_data_t\<close>.\<close>

datatype sem_id = EventFull | EventEmpty

text \<open>
  \<^verbatim>\<open>hn_event_t\<close>: the handler (a function pointer) and the data it is called with. The handler
  is opaque C code that calls into Ruby: it returns a \<^verbatim>\<open>VALUE\<close> and may change what its
  data pointer refers to, so it is a function from the data to the result and the new data.
\<close>

record 'd hn_event_t =
  handler :: "'d \<Rightarrow> VALUE \<times> 'd"
  data :: 'd

text \<open>
  \<^verbatim>\<open>hn_session_data_t\<close>, the fields the producer uses: the counters of the two semaphores,
  the Ruby queue (its contents, oldest first) and the event.
\<close>

record 'd hn_session_data_t =
  event_full :: nat
  event_empty :: nat
  event_queue :: "VALUE list"
  event :: "'d hn_event_t"

text \<open>
  What a thread does, as it is recorded in the logs: semaphore operations, the handler's
  call with the value it returned, the \<^verbatim>\<open>push\<close> with the value pushed, the producer's
  return with its status, and the callback filling the work queue.
\<close>

datatype op = SemWait sem_id | SemPost sem_id | Handler VALUE | Push VALUE
  | Return VALUE | Fill

text \<open>
  The producer's program counter. \<^verbatim>\<open>hn_proc_without_gvl(fn, arg)\<close> takes three steps:
  release the GVL, call \<^verbatim>\<open>fn(arg)\<close>, take the GVL again.
\<close>

datatype pc = L42_release | L42_call | L42_acquire | L45 | L48 | L51
  | L52_release | L52_call | L52_acquire | L55 | Exited

text \<open>The callback's program counter, after the comment of lines 23 to 26.\<close>

datatype cb_pc = CB_wait | CB_fill | CB_post

text \<open>
  The state of the system: the session data, the producer's registers (program counter,
  the local \<^verbatim>\<open>ruby_event\<close>, whether it holds the GVL, the value it returned), the callback's
  program counter, and two logs that no step reads: \<open>plog\<close> lists the producer's
  operations in program order, each with whether the producer held the GVL when it
  executed, and \<open>cb_log\<close> lists the callback's operations.
\<close>

record 'd world =
  session_data :: "'d hn_session_data_t"
  pc :: pc
  ruby_event :: VALUE
  gvl :: bool
  retval :: "VALUE option"
  cb_pc :: cb_pc
  plog :: "(op \<times> bool) list"
  cb_log :: "op list"

datatype thread = Producer | Callback

subsection \<open>Semaphores and the GVL\<close>

fun sem_count :: "sem_id \<Rightarrow> 'd world \<Rightarrow> nat" where
  "sem_count EventFull s = event_full (session_data s)"
| "sem_count EventEmpty s = event_empty (session_data s)"

fun sem_set :: "sem_id \<Rightarrow> nat \<Rightarrow> 'd world \<Rightarrow> 'd world" where
  "sem_set EventFull n s = s\<lparr>session_data := (session_data s)\<lparr>event_full := n\<rparr>\<rparr>"
| "sem_set EventEmpty n s = s\<lparr>session_data := (session_data s)\<lparr>event_empty := n\<rparr>\<rparr>"

text \<open>
  Modelled from the spec: \<^verbatim>\<open>hn_sem_wait\<close>, declared in a header that is not among the
  sources. The spec's BinarySignal: \<^verbatim>\<open>wait()\<close> blocks the calling thread until
  count > 0, then atomically decrements. A wait that would block is \<open>None\<close>: the thread
  stays where it is and tries again at its next step.
\<close>

definition hn_sem_wait :: "sem_id \<Rightarrow> 'd world \<Rightarrow> 'd world option" where
  "hn_sem_wait sem s =
     (if sem_count sem s = 0 then None else Some (sem_set sem (sem_count sem s - 1) s))"

text \<open>
  Modelled from the spec: \<^verbatim>\<open>hn_sem_post\<close>, declared in a header that is not among the
  sources. The spec's BinarySignal: \<^verbatim>\<open>post()\<close> atomically increments count.
\<close>

definition hn_sem_post :: "sem_id \<Rightarrow> 'd world \<Rightarrow> 'd world" where
  "hn_sem_post sem s = sem_set sem (Suc (sem_count sem s)) s"

text \<open>
  Modelled from the spec: the first half of \<^verbatim>\<open>hn_proc_without_gvl\<close>, which is declared
  in common.h, not among the sources. The spec's ExclusivityLock:
  \<^verbatim>\<open>runWithoutLock(blockingOperation)\<close> releases the lock, executes the operation, then
  reacquires the lock before returning.
\<close>

definition gvl_release :: "'d world \<Rightarrow> 'd world" where
  "gvl_release s = s\<lparr>gvl := False\<rparr>"

text \<open>
  Modelled from the spec: the second half of \<^verbatim>\<open>hn_proc_without_gvl\<close>, the
  reacquisition of the lock after the operation. A thread that has to wait for the lock is
  a thread that the schedule does not run.
\<close>

definition gvl_acquire :: "'d world \<Rightarrow> 'd world" where
  "gvl_acquire s = s\<lparr>gvl := True\<rparr>"

text \<open>The producer's log entry: the operation and whether the GVL is held right now.\<close>

definition logp :: "op \<Rightarrow> 'd world \<Rightarrow> 'd world" where
  "logp x s = s\<lparr>plog := plog s @ [(x, gvl s)]\<rparr>"

definition logc :: "op \<Rightarrow> 'd world \<Rightarrow> 'd world" where
  "logc x s = s\<lparr>cb_log := cb_log s @ [x]\<rparr>"

subsection \<open>The producer\<close>

text \<open>Line 45: the handler is called with the event's data; its result is \<^verbatim>\<open>ruby_event\<close>.\<close>

definition call_handler :: "'d world \<Rightarrow> 'd world" where
  "call_handler s =
     (let ev = event (session_data s);
          (v, d') = handler ev (data ev)
      in logp (Handler v)
           (s\<lparr>session_data := (session_data s)\<lparr>event := ev\<lparr>data := d'\<rparr>\<rparr>, ruby_event := v\<rparr>))"

text \<open>Line 51: \<^verbatim>\<open>event_queue.push(ruby_event)\<close> appends at the tail of the queue.\<close>

definition rb_push :: "'d world \<Rightarrow> 'd world" where
  "rb_push s =
     logp (Push (ruby_event s))
       (s\<lparr>session_data :=
            (session_data s)\<lparr>event_queue := event_queue (session_data s) @ [ruby_event s]\<rparr>\<rparr>)"

text \<open>One atomic step of the producer, by program counter.\<close>

definition producer_step :: "'d world \<Rightarrow> 'd world" where
  "producer_step s =
     (case pc s of
        L42_release \<Rightarrow> (gvl_release s)\<lparr>pc := L42_call\<rparr>
      | L42_call \<Rightarrow>
          (case hn_sem_wait EventFull s of
             None \<Rightarrow> s
           | Some s' \<Rightarrow> (logp (SemWait EventFull) s')\<lparr>pc := L42_acquire\<rparr>)
      | L42_acquire \<Rightarrow> (gvl_acquire s)\<lparr>pc := L45\<rparr>
      | L45 \<Rightarrow> (call_handler s)\<lparr>pc := L48\<rparr>
      | L48 \<Rightarrow> (if ruby_event s = Qnil then s\<lparr>pc := L55\<rparr> else s\<lparr>pc := L51\<rparr>)
      | L51 \<Rightarrow> (rb_push s)\<lparr>pc := L52_release\<rparr>
      | L52_release \<Rightarrow> (gvl_release s)\<lparr>pc := L52_call\<rparr>
      | L52_call \<Rightarrow> (logp (SemPost EventEmpty) (hn_sem_post EventEmpty s))\<lparr>pc := L52_acquire\<rparr>
      | L52_acquire \<Rightarrow> (gvl_acquire s)\<lparr>pc := L42_release\<rparr>
      | L55 \<Rightarrow> (logp (Return Qtrue) s)\<lparr>retval := Some Qtrue, pc := Exited\<rparr>
      | Exited \<Rightarrow> s)"

subsection \<open>The callback\<close>

text \<open>
  Modelled from the spec: the libspotify callback, whose code is not among the sources.
  The comment of lines 23 to 26 and the spec give its protocol: \<^verbatim>\<open>event_empty.wait\<close>, fill
  the work queue, \<^verbatim>\<open>event_full.post\<close>, over and over. One step per operation.
\<close>

definition callback_step :: "'d world \<Rightarrow> 'd world" where
  "callback_step s =
     (case cb_pc s of
        CB_wait \<Rightarrow>
          (case hn_sem_wait EventEmpty s of
             None \<Rightarrow> s
           | Some s' \<Rightarrow> (logc (SemWait EventEmpty) s')\<lparr>cb_pc := CB_fill\<rparr>)
      | CB_fill \<Rightarrow> (logc Fill s)\<lparr>cb_pc := CB_post\<rparr>
      | CB_post \<Rightarrow> (logc (SemPost EventFull) (hn_sem_post EventFull s))\<lparr>cb_pc := CB_wait\<rparr>)"

subsection \<open>Runs\<close>

fun step :: "thread \<Rightarrow> 'd world \<Rightarrow> 'd world" where
  "step Producer s = producer_step s"
| "step Callback s = callback_step s"

fun run :: "thread list \<Rightarrow> 'd world \<Rightarrow> 'd world" where
  "run [] s = s"
| "run (t # ts) s = run ts (step t s)"

text \<open>
  Modelled from the spec: the creation of the session data, whose code is not among the
  sources. The comment of lines 14 to 16 and the spec's lifecycle boundary give the
  semaphores: \<^verbatim>\<open>event_full\<close> is 0, \<^verbatim>\<open>event_empty\<close> is 1. The queue is empty, the
  producer is at the head of its loop and holds the GVL, as a Ruby thread does when it
  enters C code, and the callback is about to wait.
\<close>

definition init :: "('d \<Rightarrow> VALUE \<times> 'd) \<Rightarrow> 'd \<Rightarrow> 'd world" where
  "init h d =
     \<lparr>session_data =
        \<lparr>event_full = 0, event_empty = 1, event_queue = [],
         event = \<lparr>handler = h, data = d\<rparr>\<rparr>,
      pc = L42_release, ruby_event = Qnil, gvl = True, retval = None,
      cb_pc = CB_wait, plog = [], cb_log = []\<rparr>"

text \<open>
  What a handler returns on its first \<open>n\<close> calls, starting from data \<open>d\<close>, and the data
  after them.
\<close>

fun handler_run :: "('d \<Rightarrow> VALUE \<times> 'd) \<Rightarrow> 'd \<Rightarrow> nat \<Rightarrow> VALUE list \<times> 'd" where
  "handler_run h d 0 = ([], d)"
| "handler_run h d (Suc n) =
     (let (vs, d') = handler_run h d n; (v, d'') = h d' in (vs @ [v], d''))"

text \<open>A handler for tests: it returns the values of a list, one per call, then nil.\<close>

fun scripted :: "VALUE list \<Rightarrow> VALUE \<times> VALUE list" where
  "scripted [] = (Qnil, [])"
| "scripted (v # vs) = (v, vs)"

text \<open>One full cycle of the loop in the producer's log, for the value the handler returned.\<close>

definition cycle :: "VALUE \<Rightarrow> (op \<times> bool) list" where
  "cycle v = [(SemWait EventFull, False), (Handler v, True), (Push v, True),
              (SemPost EventEmpty, False)]"

text \<open>The log of the cycle the producer is in, by program counter.\<close>

fun partial_cycle :: "pc \<Rightarrow> VALUE \<Rightarrow> (op \<times> bool) list" where
  "partial_cycle L42_release v = []"
| "partial_cycle L42_call v = []"
| "partial_cycle L42_acquire v = [(SemWait EventFull, False)]"
| "partial_cycle L45 v = [(SemWait EventFull, False)]"
| "partial_cycle L48 v = [(SemWait EventFull, False), (Handler v, True)]"
| "partial_cycle L51 v = [(SemWait EventFull, False), (Handler v, True)]"
| "partial_cycle L52_release v = [(SemWait EventFull, False), (Handler v, True), (Push v, True)]"
| "partial_cycle L52_call v = [(SemWait EventFull, False), (Handler v, True), (Push v, True)]"
| "partial_cycle L52_acquire v = cycle v"
| "partial_cycle L55 v = [(SemWait EventFull, False), (Handler v, True)]"
| "partial_cycle Exited v =
     [(SemWait EventFull, False), (Handler v, True), (Return Qtrue, True)]"

subsection \<open>Reading the logs\<close>

abbreviation sink :: "'d world \<Rightarrow> VALUE list" where
  "sink s \<equiv> event_queue (session_data s)"

text \<open>What the handler would return if it were called in this state.\<close>

abbreviation next_result :: "'d world \<Rightarrow> VALUE" where
  "next_result s \<equiv> fst (handler (event (session_data s)) (data (event (session_data s))))"

text \<open>A dispatch is a call of the handler.\<close>

fun is_dispatch :: "op \<times> bool \<Rightarrow> bool" where
  "is_dispatch (Handler v, g) = True"
| "is_dispatch (x, g) = False"

definition dispatches :: "'d world \<Rightarrow> nat" where
  "dispatches s = length (filter is_dispatch (plog s))"

text \<open>Completed waits and issued posts of a semaphore, by either thread.\<close>

definition waits_done :: "sem_id \<Rightarrow> 'd world \<Rightarrow> nat" where
  "waits_done sem s =
     count_list (map fst (plog s)) (SemWait sem) + count_list (cb_log s) (SemWait sem)"

definition posts_issued :: "sem_id \<Rightarrow> 'd world \<Rightarrow> nat" where
  "posts_issued sem s =
     count_list (map fst (plog s)) (SemPost sem) + count_list (cb_log s) (SemPost sem)"

subsection \<open>A fair schedule\<close>

text \<open>
  One round lets the callback deliver an event (wait, fill, post) and then gives the
  producer the nine steps of one pass through its loop.
\<close>

definition one_round :: "thread list" where
  "one_round = replicate 3 Callback @ replicate 9 Producer"

definition lockstep :: "nat \<Rightarrow> thread list" where
  "lockstep n = concat (replicate n one_round)"

subsection \<open>Invariants\<close>

text \<open>The program counters at which the handler's result of this cycle is in \<^verbatim>\<open>ruby_event\<close>.\<close>

definition called :: "pc \<Rightarrow> bool" where
  "called p = (p \<in> {L48, L51, L52_release, L52_call, L52_acquire, L55, Exited})"

text \<open>
  The invariant of the producer, for a handler \<open>h\<close> started on data \<open>d\<close>, with \<open>vs\<close> the
  values of the cycles that are complete: the log is the completed cycles followed by the
  current one, the queue holds the forwarded values, the GVL is held except inside the two
  calls of \<^verbatim>\<open>hn_proc_without_gvl\<close>, and the handler has been called once per cycle.
\<close>

definition shape :: "('d \<Rightarrow> VALUE \<times> 'd) \<Rightarrow> 'd \<Rightarrow> VALUE list \<Rightarrow> 'd world \<Rightarrow> bool" where
  "shape h d vs s =
     (handler (event (session_data s)) = h \<and>
      Qnil \<notin> set vs \<and>
      plog s = concat (map cycle vs) @ partial_cycle (pc s) (ruby_event s) \<and>
      event_queue (session_data s) =
        vs @ (if pc s \<in> {L52_release, L52_call, L52_acquire} then [ruby_event s] else []) \<and>
      gvl s = (pc s \<notin> {L42_call, L42_acquire, L52_call, L52_acquire}) \<and>
      (pc s \<in> {L51, L52_release, L52_call, L52_acquire} \<longrightarrow> ruby_event s \<noteq> Qnil) \<and>
      (pc s \<in> {L55, Exited} \<longrightarrow> ruby_event s = Qnil) \<and>
      retval s = (if pc s = Exited then Some Qtrue else None) \<and>
      handler_run h d (length vs + (if called (pc s) then 1 else 0)) =
        (vs @ (if called (pc s) then [ruby_event s] else []), data (event (session_data s))))"

text \<open>The semaphores' conservation law, from the counts 0 and 1 at the start.\<close>

definition sem_inv :: "'d world \<Rightarrow> bool" where
  "sem_inv s =
     (waits_done EventFull s + event_full (session_data s) = posts_issued EventFull s \<and>
      waits_done EventEmpty s + event_empty (session_data s) = Suc (posts_issued EventEmpty s))"

text \<open>The callback fills the work queue once per completed wait and never posts \<^verbatim>\<open>event_empty\<close>.\<close>

definition cb_inv :: "'d world \<Rightarrow> bool" where
  "cb_inv s =
     (count_list (cb_log s) (SemWait EventEmpty) =
        count_list (cb_log s) Fill + (if cb_pc s = CB_fill then 1 else 0) \<and>
      count_list (cb_log s) (SemPost EventEmpty) = 0)"

text \<open>
  The producer is on its way out: the handler is about to return nil or has returned it.
  \<open>remaining\<close> counts the producer's steps to the exit.
\<close>

definition winding :: "'d world \<Rightarrow> bool" where
  "winding s =
     (pc s = L45 \<and> next_result s = Qnil \<or> pc s = L48 \<and> ruby_event s = Qnil \<or>
      pc s = L55 \<or> pc s = Exited)"

fun remaining :: "pc \<Rightarrow> nat" where
  "remaining L45 = 3"
| "remaining L48 = 2"
| "remaining L55 = 1"
| "remaining p = 0"

text \<open>
  The producer's steps from a state to its exit, for a handler whose first nil is its
  result number \<open>N\<close> (counting from 0): what is left of the current cycle, nine steps
  for each further forwarding cycle, six for the last one.
\<close>

definition steps_left :: "nat \<Rightarrow> 'd world \<Rightarrow> nat" where
  "steps_left N s =
     (case pc s of
        L42_release \<Rightarrow> 9 * (N - length (sink s)) + 6
      | L42_call \<Rightarrow> 9 * (N - length (sink s)) + 5
      | L42_acquire \<Rightarrow> 9 * (N - length (sink s)) + 4
      | L45 \<Rightarrow> 9 * (N - length (sink s)) + 3
      | L48 \<Rightarrow> 9 * (N - length (sink s)) + 2
      | L51 \<Rightarrow> 9 * (N - length (sink s)) + 1
      | L52_release \<Rightarrow> 9 * (N - length (sink s)) + 9
      | L52_call \<Rightarrow> 9 * (N - length (sink s)) + 8
      | L52_acquire \<Rightarrow> 9 * (N - length (sink s)) + 7
      | L55 \<Rightarrow> 1
      | Exited \<Rightarrow> 0)"

text \<open>The callback never waits on \<^verbatim>\<open>event_full\<close>.\<close>

definition cb_no_full_wait :: "'d world \<Rightarrow> bool" where
  "cb_no_full_wait s = (count_list (cb_log s) (SemWait EventFull) = 0)"

text \<open>
  The forwarding part of a cycle, from the push of line 51 to the end of line 52: the
  producer's steps to the completed post, and the operations still to be logged.
\<close>

definition forwarding :: "pc \<Rightarrow> bool" where
  "forwarding p = (p \<in> {L51, L52_release, L52_call, L52_acquire})"

fun fwd_left :: "pc \<Rightarrow> nat" where
  "fwd_left L51 = 3"
| "fwd_left L52_release = 2"
| "fwd_left L52_call = 1"
| "fwd_left p = 0"

fun fwd_ops :: "pc \<Rightarrow> VALUE \<Rightarrow> op list" where
  "fwd_ops L51 v = [Push v, SemPost EventEmpty]"
| "fwd_ops L52_release v = [SemPost EventEmpty]"
| "fwd_ops L52_call v = [SemPost EventEmpty]"
| "fwd_ops p v = []"

section \<open>Proofs\<close>

subsection \<open>The producer's invariant\<close>

lemmas ops = hn_sem_wait_def hn_sem_post_def gvl_release_def gvl_acquire_def logp_def logc_def
  call_handler_def rb_push_def

lemma shape_init: "shape h d [] (init h d)"
  by (simp add: shape_def init_def called_def)

lemma callback_frame:
  "pc (callback_step s) = pc s"
  "ruby_event (callback_step s) = ruby_event s"
  "gvl (callback_step s) = gvl s"
  "retval (callback_step s) = retval s"
  "plog (callback_step s) = plog s"
  "event_queue (session_data (callback_step s)) = event_queue (session_data s)"
  "event (session_data (callback_step s)) = event (session_data s)"
  by (simp_all add: callback_step_def ops split: cb_pc.split option.split)

lemma shape_callback: "shape h d vs s \<Longrightarrow> shape h d vs (callback_step s)"
  by (simp add: shape_def callback_frame)

lemma shape_producer:
  "shape h d vs s \<Longrightarrow>
   shape h d (if pc s = L52_acquire then vs @ [ruby_event s] else vs) (producer_step s)"
proof (cases "pc s")
  case L42_release
  then show "shape h d vs s \<Longrightarrow> ?thesis"
    by (simp add: shape_def producer_step_def ops called_def)
next
  case L42_call
  then show "shape h d vs s \<Longrightarrow> ?thesis"
    by (simp add: shape_def producer_step_def ops called_def)
next
  case L42_acquire
  then show "shape h d vs s \<Longrightarrow> ?thesis"
    by (simp add: shape_def producer_step_def ops called_def)
next
  case L45
  then show "shape h d vs s \<Longrightarrow> ?thesis"
    by (simp add: shape_def producer_step_def ops called_def split: prod.split)
next
  case L48
  then show "shape h d vs s \<Longrightarrow> ?thesis"
    by (simp add: shape_def producer_step_def ops called_def)
next
  case L51
  then show "shape h d vs s \<Longrightarrow> ?thesis"
    by (simp add: shape_def producer_step_def ops called_def)
next
  case L52_release
  then show "shape h d vs s \<Longrightarrow> ?thesis"
    by (simp add: shape_def producer_step_def ops called_def)
next
  case L52_call
  then show "shape h d vs s \<Longrightarrow> ?thesis"
    by (simp add: shape_def producer_step_def ops called_def cycle_def)
next
  case L52_acquire
  then show "shape h d vs s \<Longrightarrow> ?thesis"
    by (auto simp: shape_def producer_step_def ops called_def)
next
  case L55
  then show "shape h d vs s \<Longrightarrow> ?thesis"
    by (simp add: shape_def producer_step_def ops called_def)
next
  case Exited
  then show "shape h d vs s \<Longrightarrow> ?thesis"
    by (simp add: shape_def producer_step_def ops called_def)
qed

lemma shape_step: "shape h d vs s \<Longrightarrow> \<exists>vs'. shape h d vs' (step t s)"
  by (cases t) (auto intro: shape_producer shape_callback)

lemma shape_run: "shape h d vs s \<Longrightarrow> \<exists>vs'. shape h d vs' (run ts s)"
proof (induction ts arbitrary: s vs)
  case Nil
  then show ?case by auto
next
  case (Cons t ts)
  from shape_step [OF Cons.prems] obtain vs' where "shape h d vs' (step t s)" ..
  from Cons.IH [OF this] show ?case by simp
qed

lemma shape_reach: "\<exists>vs. shape h d vs (run ts (init h d))"
  by (rule shape_run [OF shape_init])

subsection \<open>The handler's results\<close>

lemma length_handler_run: "length (fst (handler_run h d n)) = n"
  by (induction n) (simp_all add: split_beta)

lemma handler_run_take:
  "take n (fst (handler_run h d (n + k))) = fst (handler_run h d n)"
  by (induction k) (simp_all add: split_beta length_handler_run)

lemma handler_run_front:
  "handler_run h d (Suc n) = (fst (h d) # fst (handler_run h (snd (h d)) n),
                               snd (handler_run h (snd (h d)) n))"
  by (induction n) (simp_all add: split_beta)

subsection \<open>Entries of the producer's log\<close>

lemma concat_decomp:
  "concat bs @ rest = pre @ x # post \<Longrightarrow>
   (\<exists>as b cs p q. bs = as @ b # cs \<and> b = p @ x # q \<and> pre = concat as @ p \<and>
       post = q @ concat cs @ rest) \<or>
   (\<exists>p. rest = p @ x # post \<and> pre = concat bs @ p)"
proof (induction bs arbitrary: pre)
  case Nil
  then show ?case by simp
next
  case (Cons b bs)
  from Cons.prems have "b @ (concat bs @ rest) = pre @ (x # post)" by simp
  then obtain us where
    "(b = pre @ us \<and> us @ (concat bs @ rest) = x # post) \<or>
     (b @ us = pre \<and> concat bs @ rest = us @ x # post)"
    unfolding append_eq_append_conv2 by blast
  then consider (here) q where "b = pre @ x # q" "post = q @ concat bs @ rest"
    | (later) us where "pre = b @ us" "concat bs @ rest = us @ x # post"
    by (cases us) auto
  then show ?case
  proof cases
    case here
    then have "b # bs = [] @ b # bs \<and> b = pre @ x # q \<and> pre = concat [] @ pre \<and>
      post = q @ concat bs @ rest" by simp
    then show ?thesis by blast
  next
    case later
    from Cons.IH [OF later(2)] show ?thesis
    proof
      assume "\<exists>as b' cs p q. bs = as @ b' # cs \<and> b' = p @ x # q \<and> us = concat as @ p \<and>
        post = q @ concat cs @ rest"
      then obtain as b' cs p q where "bs = as @ b' # cs" "b' = p @ x # q"
        "us = concat as @ p" "post = q @ concat cs @ rest" by blast
      with later(1) have "b # bs = (b # as) @ b' # cs \<and> b' = p @ x # q \<and>
        pre = concat (b # as) @ p \<and> post = q @ concat cs @ rest" by simp
      then show ?thesis by blast
    next
      assume "\<exists>p. rest = p @ x # post \<and> us = concat bs @ p"
      with later(1) show ?thesis by auto
    qed
  qed
qed

lemma cycles_decomp:
  assumes "concat (map cycle vs) @ rest = pre @ x # post"
  shows "(\<exists>us w ws p q. vs = us @ w # ws \<and> cycle w = p @ x # q \<and>
            pre = concat (map cycle us) @ p \<and> post = q @ concat (map cycle ws) @ rest) \<or>
         (\<exists>p. rest = p @ x # post \<and> pre = concat (map cycle vs) @ p)"
  using concat_decomp [OF assms]
proof
  assume "\<exists>as b cs p q. map cycle vs = as @ b # cs \<and> b = p @ x # q \<and> pre = concat as @ p \<and>
    post = q @ concat cs @ rest"
  then obtain as b cs p q where m: "map cycle vs = as @ b # cs" and b: "b = p @ x # q"
    and pre: "pre = concat as @ p" and post: "post = q @ concat cs @ rest" by blast
  from m obtain us ws' where vs: "vs = us @ ws'" and as: "as = map cycle us"
    and r: "b # cs = map cycle ws'"
    by (auto simp: map_eq_append_conv)
  from r obtain w ws where ws': "ws' = w # ws" and bw: "b = cycle w" and cs: "cs = map cycle ws"
    by (auto simp: Cons_eq_map_conv)
  from vs ws' bw b pre post as cs
  have "vs = us @ w # ws \<and> cycle w = p @ x # q \<and> pre = concat (map cycle us) @ p \<and>
    post = q @ concat (map cycle ws) @ rest" by simp
  then show ?thesis by blast
next
  assume "\<exists>p. rest = p @ x # post \<and> pre = concat (map cycle vs) @ p"
  then show ?thesis by blast
qed

lemma cycle_split:
  "cycle w = p @ x # q \<Longrightarrow>
   (p = [] \<and> x = (SemWait EventFull, False)) \<or>
   (p = [(SemWait EventFull, False)] \<and> x = (Handler w, True)) \<or>
   (p = [(SemWait EventFull, False), (Handler w, True)] \<and> x = (Push w, True)) \<or>
   (p = [(SemWait EventFull, False), (Handler w, True), (Push w, True)] \<and>
      x = (SemPost EventEmpty, False) \<and> q = [])"
  by (auto simp: cycle_def Cons_eq_append_conv)

lemma partial_cycle_split:
  "partial_cycle c v = p @ x # q \<Longrightarrow>
   (p = [] \<and> x = (SemWait EventFull, False)) \<or>
   (p = [(SemWait EventFull, False)] \<and> x = (Handler v, True) \<and>
      (q = [] \<and> c \<in> {L48, L51, L55} \<or> q = [(Return Qtrue, True)] \<and> c = Exited \<or>
       q \<noteq> [] \<and> c \<in> {L52_release, L52_call, L52_acquire})) \<or>
   (p = [(SemWait EventFull, False), (Handler v, True)] \<and> x = (Push v, True) \<and>
      c \<in> {L52_release, L52_call, L52_acquire}) \<or>
   (p = [(SemWait EventFull, False), (Handler v, True), (Push v, True)] \<and>
      x = (SemPost EventEmpty, False) \<and> q = [] \<and> c = L52_acquire) \<or>
   (p = [(SemWait EventFull, False), (Handler v, True)] \<and> x = (Return Qtrue, True) \<and>
      q = [] \<and> c = Exited)"
  by (cases c) (auto simp: cycle_def Cons_eq_append_conv)

lemma plog_entry:
  assumes sh: "shape h d vs s" and dec: "plog s = pre @ x # post"
  shows "\<exists>us v. Qnil \<notin> set us \<and>
     ((x = (SemWait EventFull, False) \<and> pre = concat (map cycle us)) \<or>
      (x = (Handler v, True) \<and> pre = concat (map cycle us) @ [(SemWait EventFull, False)] \<and>
         (v = Qnil \<longrightarrow> post = [] \<or> post = [(Return Qtrue, True)])) \<or>
      (x = (Push v, True) \<and> v \<noteq> Qnil \<and>
         pre = concat (map cycle us) @ [(SemWait EventFull, False), (Handler v, True)]) \<or>
      (x = (SemPost EventEmpty, False) \<and>
         pre = concat (map cycle us) @
           [(SemWait EventFull, False), (Handler v, True), (Push v, True)]) \<or>
      (x = (Return Qtrue, True) \<and> post = [] \<and>
         pre = concat (map cycle us) @ [(SemWait EventFull, False), (Handler Qnil, True)]))"
proof -
  from sh have pl: "plog s = concat (map cycle vs) @ partial_cycle (pc s) (ruby_event s)"
    and nn: "Qnil \<notin> set vs"
    and fwd: "pc s \<in> {L51, L52_release, L52_call, L52_acquire} \<longrightarrow> ruby_event s \<noteq> Qnil"
    and ex: "pc s \<in> {L55, Exited} \<longrightarrow> ruby_event s = Qnil"
    by (simp_all add: shape_def)
  from pl dec
  have "concat (map cycle vs) @ partial_cycle (pc s) (ruby_event s) = pre @ x # post" by simp
  from cycles_decomp [OF this] show ?thesis
  proof
    assume "\<exists>us w ws p q. vs = us @ w # ws \<and> cycle w = p @ x # q \<and>
      pre = concat (map cycle us) @ p \<and>
      post = q @ concat (map cycle ws) @ partial_cycle (pc s) (ruby_event s)"
    then obtain us w ws p q where vs: "vs = us @ w # ws" and c: "cycle w = p @ x # q"
      and pre: "pre = concat (map cycle us) @ p" by blast
    from vs nn have w: "w \<noteq> Qnil" and us: "Qnil \<notin> set us" by auto
    from cycle_split [OF c] pre w us show ?thesis
      by (intro exI [of _ us] exI [of _ w]) auto
  next
    assume "\<exists>p. partial_cycle (pc s) (ruby_event s) = p @ x # post \<and>
      pre = concat (map cycle vs) @ p"
    then obtain p where c: "partial_cycle (pc s) (ruby_event s) = p @ x # post"
      and pre: "pre = concat (map cycle vs) @ p" by blast
    from partial_cycle_split [OF c] pre nn fwd ex show ?thesis
      by (intro exI [of _ vs] exI [of _ "ruby_event s"]) auto
  qed
qed

subsection \<open>Counting\<close>

lemma count_list_snoc: "count_list (xs @ [x]) y = count_list xs y + (if x = y then 1 else 0)"
  by (induction xs) auto

lemma sem_inv_init: "sem_inv (init h d)"
  by (simp add: sem_inv_def init_def waits_done_def posts_issued_def)

lemma sem_inv_producer: "sem_inv s \<Longrightarrow> sem_inv (producer_step s)"
  by (cases "pc s")
     (auto simp: sem_inv_def producer_step_def ops waits_done_def posts_issued_def
        count_list_snoc split_beta Let_def split: option.split)

lemma sem_inv_callback: "sem_inv s \<Longrightarrow> sem_inv (callback_step s)"
  by (cases "cb_pc s")
     (auto simp: sem_inv_def callback_step_def ops waits_done_def posts_issued_def
        count_list_snoc split: option.split)

lemma sem_inv_run: "sem_inv s \<Longrightarrow> sem_inv (run ts s)"
proof (induction ts arbitrary: s)
  case Nil
  then show ?case by simp
next
  case (Cons t ts)
  then show ?case by (cases t) (simp_all add: sem_inv_producer sem_inv_callback)
qed

lemma count_cycles:
  "count_list (map fst (concat (map cycle vs))) (SemWait sem) = (if sem = EventFull then length vs else 0)"
  "count_list (map fst (concat (map cycle vs))) (SemPost sem) = (if sem = EventEmpty then length vs else 0)"
  "length (filter is_dispatch (concat (map cycle vs))) = length vs"
  by (induction vs) (auto simp: cycle_def)

lemma producer_frame:
  "cb_pc (producer_step s) = cb_pc s"
  "cb_log (producer_step s) = cb_log s"
  by (simp_all add: producer_step_def ops split_beta Let_def split: pc.split option.split)

lemma cb_inv_init: "cb_inv (init h d)"
  by (simp add: cb_inv_def init_def)

lemma cb_inv_producer: "cb_inv s \<Longrightarrow> cb_inv (producer_step s)"
  by (simp add: cb_inv_def producer_frame)

lemma cb_inv_callback: "cb_inv s \<Longrightarrow> cb_inv (callback_step s)"
  by (cases "cb_pc s")
     (simp_all add: cb_inv_def callback_step_def ops count_list_snoc split: option.split)

lemma cb_inv_run: "cb_inv s \<Longrightarrow> cb_inv (run ts s)"
proof (induction ts arbitrary: s)
  case Nil
  then show ?case by simp
next
  case (Cons t ts)
  then show ?case by (cases t) (simp_all add: cb_inv_producer cb_inv_callback)
qed

subsection \<open>Runs under the fair schedule\<close>

lemma run_append: "run (ts @ us) s = run us (run ts s)"
  by (induction ts arbitrary: s) simp_all

lemma exited_stays: "pc s = Exited \<Longrightarrow> pc (run ts s) = Exited"
proof (induction ts arbitrary: s)
  case Nil
  then show ?case by simp
next
  case (Cons t ts)
  then show ?case by (cases t) (simp_all add: callback_frame producer_step_def)
qed

lemma one_round_forward:
  assumes "pc s = L42_release" "cb_pc s = CB_wait" "0 < event_empty (session_data s)"
    and "next_result s \<noteq> Qnil"
  shows "pc (run one_round s) = L42_release"
    and "cb_pc (run one_round s) = CB_wait"
    and "0 < event_empty (session_data (run one_round s))"
    and "handler (event (session_data (run one_round s))) = handler (event (session_data s))"
    and "data (event (session_data (run one_round s))) =
           snd (handler (event (session_data s)) (data (event (session_data s))))"
  using assms
  by (simp_all add: one_round_def eval_nat_numeral producer_step_def callback_step_def ops
        split_beta Let_def)

lemma one_round_nil:
  assumes "pc s = L42_release" "cb_pc s = CB_wait" "0 < event_empty (session_data s)"
    and "next_result s = Qnil"
  shows "pc (run one_round s) = Exited"
  using assms
  by (simp add: one_round_def eval_nat_numeral producer_step_def callback_step_def ops
        split_beta Let_def)

lemma lockstep_exits:
  assumes "pc s = L42_release" "cb_pc s = CB_wait" "0 < event_empty (session_data s)"
    and "Qnil \<in> set (fst (handler_run (handler (event (session_data s)))
                         (data (event (session_data s))) n))"
  shows "pc (run (lockstep n) s) = Exited"
  using assms
proof (induction n arbitrary: s)
  case 0
  then show ?case by simp
next
  case (Suc n)
  have unfold: "run (lockstep (Suc n)) s = run (lockstep n) (run one_round s)"
    by (simp add: lockstep_def run_append)
  show ?case
  proof (cases "next_result s = Qnil")
    case True
    with Suc.prems have "pc (run one_round s) = Exited" by (simp add: one_round_nil)
    then show ?thesis unfolding unfold by (rule exited_stays)
  next
    case False
    note fw = one_round_forward [OF Suc.prems(1-3) False]
    from Suc.prems(4) False
    have "Qnil \<in> set (fst (handler_run (handler (event (session_data (run one_round s))))
                         (data (event (session_data (run one_round s)))) n))"
      by (simp add: handler_run_front fw del: handler_run.simps)
    from Suc.IH [OF fw(1-3) this] show ?thesis unfolding unfold .
  qed
qed

subsection \<open>After a nil result\<close>

lemma winding_step:
  assumes "winding s"
  shows "winding (step t s)"
    and "sink (step t s) = sink s"
    and "count_list (map fst (plog (step t s))) (SemPost EventEmpty) =
         count_list (map fst (plog s)) (SemPost EventEmpty)"
    and "remaining (pc (step t s)) = remaining (pc s) - (if t = Producer then 1 else 0)"
  using assms
  by (cases t; auto simp: winding_def callback_frame producer_step_def ops count_list_snoc
        split_beta Let_def)+

lemma winding_run:
  assumes "winding s"
  shows "winding (run ts s)"
    and "sink (run ts s) = sink s"
    and "count_list (map fst (plog (run ts s))) (SemPost EventEmpty) =
         count_list (map fst (plog s)) (SemPost EventEmpty)"
    and "remaining (pc (run ts s)) = remaining (pc s) - count_list ts Producer"
  using assms
  by (induction ts arbitrary: s) (simp_all add: winding_step)

lemma winding_exits:
  assumes "winding s" "remaining (pc s) \<le> count_list ts Producer"
  shows "pc (run ts s) = Exited"
proof -
  from winding_run(1,4) [OF assms(1), of ts] assms(2)
  have "winding (run ts s)" "remaining (pc (run ts s)) = 0" by simp_all
  then show ?thesis by (auto simp: winding_def)
qed

subsection \<open>Reachable states\<close>

lemma reach_shape: obtains vs where "shape h d vs (run ts (init h d))"
  using shape_reach [of h d ts] by blast

lemma reach_sem_inv: "sem_inv (run ts (init h d))"
  by (rule sem_inv_run [OF sem_inv_init])

lemma reach_cb_inv: "cb_inv (run ts (init h d))"
  by (rule cb_inv_run [OF cb_inv_init])

lemma handler_run_le:
  assumes "k \<le> n"
  shows "fst (handler_run h d k) = take k (fst (handler_run h d n))"
proof -
  from assms obtain j where "n = k + j" by (auto simp: le_iff_add)
  then show ?thesis by (simp only: handler_run_take)
qed

lemma handler_run_snoc:
  "fst (handler_run h d (Suc k)) =
     fst (handler_run h d k) @ [fst (h (snd (handler_run h d k)))]"
  by (simp add: split_beta)

lemma shape_results:
  assumes "shape h d vs s"
  shows "fst (handler_run h d (length vs)) = vs"
proof (cases "called (pc s)")
  case True
  with assms have "fst (handler_run h d (Suc (length vs))) = vs @ [ruby_event s]"
    by (simp add: shape_def)
  moreover have "fst (handler_run h d (length vs)) =
      take (length vs) (fst (handler_run h d (Suc (length vs))))"
    by (rule handler_run_le) simp
  ultimately show ?thesis by (simp del: handler_run.simps)
next
  case False
  with assms show ?thesis by (simp add: shape_def)
qed

lemma shape_sink:
  assumes "shape h d vs s"
  shows "sink s = fst (handler_run h d (length (sink s)))"
proof (cases "pc s \<in> {L52_release, L52_call, L52_acquire}")
  case True
  then have "called (pc s)" by (auto simp: called_def)
  with True assms show ?thesis by (simp add: shape_def)
next
  case False
  with assms have "sink s = vs" by (simp add: shape_def)
  with shape_results [OF assms] show ?thesis by simp
qed

lemma push_step: "pc s = L51 \<Longrightarrow> sink (producer_step s) = sink s @ [ruby_event s]"
  by (simp add: producer_step_def rb_push_def logp_def)

lemma handler_step: "pc s = L45 \<Longrightarrow> ruby_event (producer_step s) = next_result s"
  by (simp add: producer_step_def call_handler_def logp_def split_beta Let_def)

lemma test_step: "pc s = L48 \<Longrightarrow> ruby_event (producer_step s) = ruby_event s"
  by (simp add: producer_step_def)

lemma plog_member:
  assumes "shape h d vs s" and "(x, g) \<in> set (plog s)"
  shows "(x, g) = (SemWait EventFull, False) \<or> (x, g) = (SemPost EventEmpty, False) \<or>
         (\<exists>v. (x, g) = (Handler v, True)) \<or> (\<exists>v. v \<noteq> Qnil \<and> (x, g) = (Push v, True)) \<or>
         (x, g) = (Return Qtrue, True)"
proof -
  from assms(2) obtain pre post where "plog s = pre @ (x, g) # post"
    by (auto simp: in_set_conv_decomp)
  from plog_entry [OF assms(1) this] show ?thesis by auto
qed

lemma shape_sink_no_nil:
  assumes "shape h d vs s"
  shows "Qnil \<notin> set (sink s)"
proof -
  from assms have "Qnil \<notin> set vs"
    and "sink s = vs @ (if pc s \<in> {L52_release, L52_call, L52_acquire} then [ruby_event s] else [])"
    and "pc s \<in> {L51, L52_release, L52_call, L52_acquire} \<longrightarrow> ruby_event s \<noteq> Qnil"
    by (simp_all add: shape_def)
  then show ?thesis by (cases "pc s \<in> {L52_release, L52_call, L52_acquire}") auto
qed

lemma producer_full_empty:
  "event_full (session_data (producer_step s)) \<le> event_full (session_data s)"
  "event_empty (session_data s) \<le> event_empty (session_data (producer_step s))"
  by (simp_all add: producer_step_def ops split_beta Let_def split: pc.split)

lemma exit_steps:
  "pc (producer_step s) = L55 \<Longrightarrow> pc s = L48 \<and> ruby_event s = Qnil"
  "pc (producer_step s) = Exited \<Longrightarrow> pc s = L55 \<or> pc s = Exited"
  "pc s = L55 \<Longrightarrow> retval (producer_step s) = Some Qtrue"
  by (cases "pc s";
      simp add: producer_step_def ops split_beta Let_def split: option.splits if_splits)+

lemma shape_exited:
  assumes "shape h d vs s" and "pc s = Exited"
  shows "retval s = Some Qtrue"
    and "plog s = (concat (map cycle vs) @ [(SemWait EventFull, False)]) @
           [(Handler Qnil, True), (Return Qtrue, True)]"
    and "fst (handler_run h d (Suc (length vs))) = vs @ [Qnil]"
    and "sink s = vs"
    and "Qnil \<notin> set vs"
  using assms by (simp_all add: shape_def called_def del: handler_run.simps)

lemma shape_retval:
  assumes "shape h d vs s" and "pc s \<noteq> Exited"
  shows "retval s = None"
  using assms by (simp add: shape_def)

subsection \<open>The first nil result\<close>

lemma no_nil_before_first_nil:
  assumes first: "fst (handler_run h d (Suc N)) = us @ [Qnil]"
    and k: "Qnil \<notin> set (fst (handler_run h d k))"
  shows "k \<le> N"
proof (rule ccontr)
  assume "\<not> k \<le> N"
  then have "Suc N \<le> k" by simp
  then have "fst (handler_run h d (Suc N)) = take (Suc N) (fst (handler_run h d k))"
    by (rule handler_run_le)
  with first have "Qnil \<in> set (take (Suc N) (fst (handler_run h d k)))"
    by (simp del: handler_run.simps)
  then have "Qnil \<in> set (fst (handler_run h d k))" by (rule in_set_takeD)
  with k show False by contradiction
qed

lemma results_before_first_nil:
  assumes first: "fst (handler_run h d (Suc N)) = us @ [Qnil]"
    and k: "Qnil \<notin> set (fst (handler_run h d k))"
  shows "fst (handler_run h d k) = take k us"
proof -
  from assms have le: "k \<le> N" by (rule no_nil_before_first_nil)
  have "length (fst (handler_run h d (Suc N))) = Suc N" by (rule length_handler_run)
  with first have len: "length us = N" by (simp del: handler_run.simps)
  from le have "k \<le> Suc N" by simp
  then have "fst (handler_run h d k) = take k (fst (handler_run h d (Suc N)))"
    by (rule handler_run_le)
  with first le len show ?thesis by (simp del: handler_run.simps)
qed

lemma first_nil_unique:
  assumes first: "fst (handler_run h d (Suc N)) = us @ [Qnil]" and us: "Qnil \<notin> set us"
    and other: "fst (handler_run h d (Suc k)) = ws @ [Qnil]" and ws: "Qnil \<notin> set ws"
  shows "ws = us"
proof -
  have lu: "length us = N"
    using length_handler_run [of h d "Suc N"] first by (simp del: handler_run.simps)
  have lw: "length ws = k"
    using length_handler_run [of h d "Suc k"] other by (simp del: handler_run.simps)
  have "fst (handler_run h d k) = take k (fst (handler_run h d (Suc k)))"
    by (rule handler_run_le) simp
  with other lw have wk: "fst (handler_run h d k) = ws" by (simp del: handler_run.simps)
  have "fst (handler_run h d N) = take N (fst (handler_run h d (Suc N)))"
    by (rule handler_run_le) simp
  with first lu have un: "fst (handler_run h d N) = us" by (simp del: handler_run.simps)
  from wk ws have "k \<le> N" by (intro no_nil_before_first_nil [OF first]) simp
  moreover from un us have "N \<le> k" by (intro no_nil_before_first_nil [OF other]) simp
  ultimately have "k = N" by simp
  with first other show ?thesis by (simp del: handler_run.simps)
qed

lemma exit_sink:
  assumes first: "fst (handler_run h d (Suc N)) = us @ [Qnil]" and us: "Qnil \<notin> set us"
    and ex: "pc (run ts (init h d)) = Exited"
  shows "sink (run ts (init h d)) = us"
proof -
  obtain vs where sh: "shape h d vs (run ts (init h d))" by (rule reach_shape)
  note e = shape_exited [OF sh ex]
  from first us e(3) e(5) have "vs = us" by (rule first_nil_unique)
  with e(4) show ?thesis by simp
qed

lemma sink_prefix:
  assumes first: "fst (handler_run h d (Suc N)) = us @ [Qnil]"
  shows "sink (run ts (init h d)) = take (length (sink (run ts (init h d)))) us"
proof -
  obtain vs where sh: "shape h d vs (run ts (init h d))" by (rule reach_shape)
  let ?q = "sink (run ts (init h d))"
  have q: "?q = fst (handler_run h d (length ?q))" using sh by (rule shape_sink)
  have "Qnil \<notin> set ?q" using sh by (rule shape_sink_no_nil)
  with q have "Qnil \<notin> set (fst (handler_run h d (length ?q)))" by simp
  from results_before_first_nil [OF first this] q show ?thesis by simp
qed

lemma init_fields:
  "pc (init h d) = L42_release" "cb_pc (init h d) = CB_wait"
  "event_full (session_data (init h d)) = 0" "event_empty (session_data (init h d)) = 1"
  "handler (event (session_data (init h d))) = h" "data (event (session_data (init h d))) = d"
  "sink (init h d) = []" "plog (init h d) = []" "cb_log (init h d) = []"
  by (simp_all add: init_def)

lemma lockstep_exits_init:
  assumes "Qnil \<in> set (fst (handler_run h d n))"
  shows "pc (run (lockstep n) (init h d)) = Exited"
  using assms by (intro lockstep_exits) (simp_all add: init_fields del: handler_run.simps)

lemma first_result_nil:
  assumes sh: "shape h d vs s" and nil: "fst (h d) = Qnil"
  shows "sink s = []"
    and "count_list (map fst (plog s)) (SemPost EventEmpty) = 0"
proof -
  have res: "fst (handler_run h d (length vs)) = vs" using sh by (rule shape_results)
  have nn: "Qnil \<notin> set vs" using sh by (simp add: shape_def)
  have vs: "vs = []"
  proof (cases vs)
    case Nil
    then show ?thesis .
  next
    case (Cons v vs')
    with res have "fst (handler_run h d (Suc (length vs'))) = v # vs'" by simp
    with nil have "v = Qnil" by (simp only: handler_run_front fst_conv list.inject)
    with Cons nn show ?thesis by simp
  qed
  have fwd: "pc s \<notin> {L51, L52_release, L52_call, L52_acquire}"
  proof
    assume in_fwd: "pc s \<in> {L51, L52_release, L52_call, L52_acquire}"
    then have "called (pc s)" by (auto simp: called_def)
    with sh vs have "fst (handler_run h d (Suc 0)) = [ruby_event s]"
      by (simp add: shape_def del: handler_run.simps)
    with nil have "ruby_event s = Qnil" by (simp add: split_beta)
    moreover from sh in_fwd have "ruby_event s \<noteq> Qnil" unfolding shape_def by blast
    ultimately show False by contradiction
  qed
  from sh vs fwd show "sink s = []" by (simp add: shape_def)
  from sh vs have "plog s = partial_cycle (pc s) (ruby_event s)" by (simp add: shape_def)
  with fwd show "count_list (map fst (plog s)) (SemPost EventEmpty) = 0"
    by (cases "pc s") simp_all
qed

lemma after_nil_entry:
  assumes "shape h d vs s" and "plog s = pre @ (Handler Qnil, g) # post"
  shows "post = [] \<or> post = [(Return Qtrue, True)]"
  using plog_entry [OF assms] by auto

subsection \<open>Counts in reachable states\<close>

lemma shape_counts:
  assumes "shape h d vs s"
  shows "count_list (map fst (plog s)) (SemWait EventFull) =
           length vs + (if pc s \<in> {L42_release, L42_call} then 0 else 1)"
    and "dispatches s = length vs + (if called (pc s) then 1 else 0)"
    and "count_list (map fst (plog s)) (SemPost EventEmpty) =
           length vs + (if pc s = L52_acquire then 1 else 0)"
    and "count_list (map fst (plog s)) (SemPost EventFull) = 0"
    and "count_list (map fst (plog s)) (SemWait EventEmpty) = 0"
proof -
  from assms have pl: "plog s = concat (map cycle vs) @ partial_cycle (pc s) (ruby_event s)"
    by (simp add: shape_def)
  show "count_list (map fst (plog s)) (SemWait EventFull) =
           length vs + (if pc s \<in> {L42_release, L42_call} then 0 else 1)"
    unfolding pl by (cases "pc s") (simp_all add: count_cycles cycle_def)
  show "dispatches s = length vs + (if called (pc s) then 1 else 0)"
    unfolding pl dispatches_def
    by (cases "pc s") (simp_all add: count_cycles cycle_def called_def)
  show "count_list (map fst (plog s)) (SemPost EventEmpty) =
           length vs + (if pc s = L52_acquire then 1 else 0)"
    unfolding pl by (cases "pc s") (simp_all add: count_cycles cycle_def)
  show "count_list (map fst (plog s)) (SemPost EventFull) = 0"
    unfolding pl by (cases "pc s") (simp_all add: count_cycles cycle_def)
  show "count_list (map fst (plog s)) (SemWait EventEmpty) = 0"
    unfolding pl by (cases "pc s") (simp_all add: count_cycles cycle_def)
qed

lemma dispatches_le_waits:
  assumes "shape h d vs s"
  shows "dispatches s \<le> count_list (map fst (plog s)) (SemWait EventFull)"
  unfolding shape_counts(1,2) [OF assms] by (auto simp: called_def)

lemma dispatches_le_posts:
  assumes "shape h d vs s" and "sem_inv s"
  shows "dispatches s \<le> posts_issued EventFull s"
proof -
  from assms(2) have "waits_done EventFull s \<le> posts_issued EventFull s"
    by (simp add: sem_inv_def)
  with dispatches_le_waits [OF assms(1)] show ?thesis by (simp add: waits_done_def)
qed

lemma one_round_posts:
  assumes "pc s = L42_release" "cb_pc s = CB_wait" "0 < event_empty (session_data s)"
  shows "posts_issued EventFull (run one_round s) = Suc (posts_issued EventFull s)"
  using assms
  by (cases "next_result s = Qnil")
     (simp_all add: one_round_def eval_nat_numeral producer_step_def callback_step_def ops
        split_beta Let_def posts_issued_def count_list_snoc)

lemma lockstep_posts:
  assumes "pc s = L42_release" "cb_pc s = CB_wait" "0 < event_empty (session_data s)"
    and "Qnil \<notin> set (fst (handler_run (handler (event (session_data s)))
                          (data (event (session_data s))) n))"
  shows "posts_issued EventFull (run (lockstep (Suc n)) s) = posts_issued EventFull s + Suc n"
  using assms
proof (induction n arbitrary: s)
  case 0
  then show ?case by (simp add: lockstep_def one_round_posts)
next
  case (Suc n)
  have unfold: "run (lockstep (Suc (Suc n))) s = run (lockstep (Suc n)) (run one_round s)"
    by (simp add: lockstep_def run_append)
  from Suc.prems(4) have nn: "next_result s \<noteq> Qnil"
    and rest: "Qnil \<notin> set (fst (handler_run (handler (event (session_data s)))
                  (snd (handler (event (session_data s)) (data (event (session_data s))))) n))"
    by (auto simp: handler_run_front simp del: handler_run.simps)
  note fw = one_round_forward [OF Suc.prems(1-3) nn]
  from rest have "Qnil \<notin> set (fst (handler_run (handler (event (session_data (run one_round s))))
                         (data (event (session_data (run one_round s)))) n))"
    by (simp add: fw)
  from Suc.IH [OF fw(1-3) this] one_round_posts [OF Suc.prems(1-3)]
  show ?case unfolding unfold by simp
qed

lemma lockstep_posts_init:
  assumes "Qnil \<notin> set (fst (handler_run h d n))"
  shows "posts_issued EventFull (run (lockstep (Suc n)) (init h d)) = Suc n"
proof -
  have "posts_issued EventFull (run (lockstep (Suc n)) (init h d)) =
          posts_issued EventFull (init h d) + Suc n"
    using assms by (intro lockstep_posts) (simp_all add: init_fields del: handler_run.simps)
  then show ?thesis by (simp add: posts_issued_def init_fields)
qed

lemma wait_step:
  "pc s = L42_call \<Longrightarrow> event_full (session_data s) = 0 \<Longrightarrow> producer_step s = s"
  "pc s = L42_call \<Longrightarrow> 0 < event_full (session_data s) \<Longrightarrow>
     event_full (session_data (producer_step s)) = event_full (session_data s) - 1 \<and>
     pc (producer_step s) = L42_acquire"
  "pc (producer_step s) = L45 \<Longrightarrow> pc s = L42_acquire"
  "pc (producer_step s) = L42_acquire \<Longrightarrow> pc s = L42_call \<and> 0 < event_full (session_data s)"
  by (cases "pc s"; simp add: producer_step_def ops split_beta Let_def split: if_splits)+

lemma before_dispatch:
  assumes "shape h d vs s" and "plog s = pre @ (Handler v, g) # post"
  shows "\<exists>pre'. pre = pre' @ [(SemWait EventFull, False)]"
    and "count_list (map fst pre) (SemWait EventFull) = Suc (length (filter is_dispatch pre))"
proof -
  from plog_entry [OF assms] obtain us
    where pre: "pre = concat (map cycle us) @ [(SemWait EventFull, False)]" by auto
  then show "\<exists>pre'. pre = pre' @ [(SemWait EventFull, False)]" by blast
  from pre show "count_list (map fst pre) (SemWait EventFull) =
      Suc (length (filter is_dispatch pre))"
    by (simp add: count_cycles)
qed

lemma post_step:
  "event_empty (session_data (producer_step s)) \<noteq> event_empty (session_data s) \<Longrightarrow>
     pc s = L52_call"
  "sink (producer_step s) \<noteq> sink s \<Longrightarrow> pc s = L51"
  "pc (producer_step s) = L52_call \<Longrightarrow> pc s = L52_release"
  "pc (producer_step s) = L52_release \<Longrightarrow> pc s = L51"
  by (cases "pc s"; simp add: producer_step_def ops split_beta Let_def split: if_splits)+

lemma before_post:
  assumes "shape h d vs s" and "plog s = pre @ (SemPost EventEmpty, g) # post"
  shows "\<exists>pre' v. pre = pre' @ [(Push v, True)]"
proof -
  from plog_entry [OF assms] obtain us v where
    "pre = concat (map cycle us) @
       [(SemWait EventFull, False), (Handler v, True), (Push v, True)]" by auto
  then have "pre = (concat (map cycle us) @ [(SemWait EventFull, False), (Handler v, True)]) @
    [(Push v, True)]" by simp
  then show ?thesis by blast
qed

lemma posts_le_sink:
  assumes "shape h d vs s"
  shows "count_list (map fst (plog s)) (SemPost EventEmpty) \<le> length (sink s)"
proof -
  from assms have "sink s =
      vs @ (if pc s \<in> {L52_release, L52_call, L52_acquire} then [ruby_event s] else [])"
    by (simp add: shape_def)
  then have "length (sink s) =
      length vs + (if pc s \<in> {L52_release, L52_call, L52_acquire} then 1 else 0)"
    by simp
  with shape_counts(3) [OF assms] show ?thesis by simp
qed

lemma fills_le_posts:
  assumes "shape h d vs s" and "sem_inv s" and "cb_inv s"
  shows "count_list (cb_log s) Fill \<le> Suc (count_list (map fst (plog s)) (SemPost EventEmpty))"
proof -
  from assms(3) have "count_list (cb_log s) Fill \<le> count_list (cb_log s) (SemWait EventEmpty)"
    and "count_list (cb_log s) (SemPost EventEmpty) = 0"
    by (simp_all add: cb_inv_def)
  moreover from assms(2) have "waits_done EventEmpty s \<le> Suc (posts_issued EventEmpty s)"
    by (simp add: sem_inv_def)
  ultimately show ?thesis by (simp add: waits_done_def posts_issued_def)
qed

subsection \<open>Progress once the events have been posted\<close>

lemma cb_no_full_wait_run: "cb_no_full_wait s \<Longrightarrow> cb_no_full_wait (run ts s)"
proof (induction ts arbitrary: s)
  case Nil
  then show ?case by simp
next
  case (Cons t ts)
  have "cb_no_full_wait (step t s)"
  proof (cases t)
    case Producer
    with Cons.prems show ?thesis by (simp add: cb_no_full_wait_def producer_frame)
  next
    case Callback
    with Cons.prems show ?thesis
      by (cases "cb_pc s")
         (simp_all add: cb_no_full_wait_def callback_step_def ops count_list_snoc
            split: option.split)
  qed
  then show ?case by (simp add: Cons.IH)
qed

lemma shape_len_le:
  assumes sh: "shape h d vs s" and first: "fst (handler_run h d (Suc N)) = us @ [Qnil]"
  shows "length vs \<le> N"
proof -
  from sh have "Qnil \<notin> set vs" by (simp add: shape_def)
  with shape_results [OF sh] have "Qnil \<notin> set (fst (handler_run h d (length vs)))" by simp
  with first show ?thesis by (rule no_nil_before_first_nil)
qed

lemma shape_called:
  assumes sh: "shape h d vs s" and c: "called (pc s)"
  shows "fst (handler_run h d (Suc (length vs))) = vs @ [ruby_event s]"
  using assms by (simp add: shape_def del: handler_run.simps)

lemma shape_value_lt:
  assumes sh: "shape h d vs s" and first: "fst (handler_run h d (Suc N)) = us @ [Qnil]"
    and c: "called (pc s)" and v: "ruby_event s \<noteq> Qnil"
  shows "length vs < N"
proof -
  from sh have "Qnil \<notin> set vs" by (simp add: shape_def)
  with shape_called [OF sh c] v
  have "Qnil \<notin> set (fst (handler_run h d (Suc (length vs))))"
    by (simp del: handler_run.simps)
  with first have "Suc (length vs) \<le> N" by (rule no_nil_before_first_nil)
  then show ?thesis by simp
qed

lemma shape_nil_eq:
  assumes sh: "shape h d vs s" and first: "fst (handler_run h d (Suc N)) = us @ [Qnil]"
    and us: "Qnil \<notin> set us" and c: "called (pc s)" and v: "ruby_event s = Qnil"
  shows "length vs = N"
proof -
  from sh have nn: "Qnil \<notin> set vs" by (simp add: shape_def)
  from shape_called [OF sh c] v
  have "fst (handler_run h d (Suc (length vs))) = vs @ [Qnil]" by simp
  with first us have "vs = us" using nn by (rule first_nil_unique)
  moreover have "length us = N"
    using length_handler_run [of h d "Suc N"] first by (simp del: handler_run.simps)
  ultimately show ?thesis by simp
qed

lemma producer_progress:
  assumes sh: "shape h d vs s" and si: "sem_inv s" and cb: "cb_no_full_wait s"
    and first: "fst (handler_run h d (Suc N)) = us @ [Qnil]" and us: "Qnil \<notin> set us"
    and posts: "N < posts_issued EventFull s"
  shows "steps_left N (producer_step s) = steps_left N s - 1"
proof -
  from sh have q: "sink s =
      vs @ (if pc s \<in> {L52_release, L52_call, L52_acquire} then [ruby_event s] else [])"
    by (simp add: shape_def)
  show ?thesis
  proof (cases "pc s")
    case L42_release
    then show ?thesis by (simp add: steps_left_def producer_step_def ops)
  next
    case L42_call
    from shape_counts(1) [OF sh] L42_call
    have "count_list (map fst (plog s)) (SemWait EventFull) = length vs" by simp
    with cb have "waits_done EventFull s = length vs"
      by (simp add: waits_done_def cb_no_full_wait_def)
    with si have "length vs + event_full (session_data s) = posts_issued EventFull s"
      by (simp add: sem_inv_def)
    with shape_len_le [OF sh first] posts have "0 < event_full (session_data s)" by simp
    with L42_call show ?thesis by (simp add: steps_left_def producer_step_def ops)
  next
    case L42_acquire
    then show ?thesis by (simp add: steps_left_def producer_step_def ops)
  next
    case L45
    then show ?thesis by (simp add: steps_left_def producer_step_def ops split_beta Let_def)
  next
    case L48
    then have c: "called (pc s)" by (simp add: called_def)
    show ?thesis
    proof (cases "ruby_event s = Qnil")
      case True
      from shape_nil_eq [OF sh first us c True] q L48 have "length (sink s) = N" by simp
      with L48 True show ?thesis by (simp add: steps_left_def producer_step_def)
    next
      case False
      with L48 show ?thesis by (simp add: steps_left_def producer_step_def)
    qed
  next
    case L51
    then have c: "called (pc s)" by (simp add: called_def)
    from sh L51 have "ruby_event s \<noteq> Qnil" by (simp add: shape_def)
    from shape_value_lt [OF sh first c this] q L51 have "length (sink s) < N" by simp
    with L51 show ?thesis by (simp add: steps_left_def producer_step_def ops)
  next
    case L52_release
    then show ?thesis by (simp add: steps_left_def producer_step_def ops)
  next
    case L52_call
    then show ?thesis by (simp add: steps_left_def producer_step_def ops)
  next
    case L52_acquire
    then show ?thesis by (simp add: steps_left_def producer_step_def ops)
  next
    case L55
    then show ?thesis by (simp add: steps_left_def producer_step_def ops)
  next
    case Exited
    then show ?thesis by (simp add: steps_left_def producer_step_def ops)
  qed
qed

lemma posts_mono: "posts_issued sem s \<le> posts_issued sem (step t s)"
proof (cases t)
  case Producer
  then show ?thesis
    by (cases "pc s")
       (simp_all add: posts_issued_def producer_step_def ops split_beta Let_def
          split: option.split)
next
  case Callback
  then show ?thesis
    by (cases "cb_pc s")
       (simp_all add: posts_issued_def callback_step_def ops count_list_snoc
          split: option.split)
qed

lemma steps_left_callback: "steps_left N (callback_step s) = steps_left N s"
  by (simp add: steps_left_def callback_frame split: pc.split)

lemma run_progress:
  assumes "shape h d vs s" and "sem_inv s" and "cb_no_full_wait s"
    and first: "fst (handler_run h d (Suc N)) = us @ [Qnil]" and us: "Qnil \<notin> set us"
    and "N < posts_issued EventFull s"
  shows "steps_left N (run ts s) \<le> steps_left N s - count_list ts Producer"
  using assms(1-3,6)
proof (induction ts arbitrary: s vs)
  case Nil
  then show ?case by simp
next
  case (Cons t ts)
  from shape_step [OF Cons.prems(1)] obtain vs' where sh': "shape h d vs' (step t s)" ..
  from Cons.prems(2) have si': "sem_inv (step t s)"
    by (cases t) (simp_all add: sem_inv_producer sem_inv_callback)
  from cb_no_full_wait_run [OF Cons.prems(3), of "[t]"] have cb': "cb_no_full_wait (step t s)"
    by simp
  from Cons.prems(4) posts_mono [of EventFull s t]
  have posts': "N < posts_issued EventFull (step t s)" by simp
  note ih = Cons.IH [OF sh' si' cb' posts']
  show ?case
  proof (cases t)
    case Producer
    with producer_progress [OF Cons.prems(1-3) first us Cons.prems(4)] ih
    show ?thesis by simp
  next
    case Callback
    with ih show ?thesis by (simp add: steps_left_callback)
  qed
qed

lemma steps_left_0: "steps_left N s = 0 \<Longrightarrow> pc s = Exited"
  by (cases "pc s") (simp_all add: steps_left_def)

lemma steps_left_bound:
  assumes "shape h d vs s"
  shows "steps_left N s \<le> 9 * Suc N"
proof -
  from assms have "sink s =
      vs @ (if pc s \<in> {L52_release, L52_call, L52_acquire} then [ruby_event s] else [])"
    by (simp add: shape_def)
  then show ?thesis by (cases "pc s") (simp_all add: steps_left_def)
qed

lemma exits_after_posts:
  assumes first: "fst (handler_run h d (Suc N)) = us @ [Qnil]" and us: "Qnil \<notin> set us"
    and posts: "N < posts_issued EventFull (run ts (init h d))"
    and steps: "9 * Suc N \<le> count_list ts' Producer"
  shows "pc (run (ts @ ts') (init h d)) = Exited"
proof -
  obtain vs where sh: "shape h d vs (run ts (init h d))" by (rule reach_shape)
  have cb: "cb_no_full_wait (run ts (init h d))"
    by (rule cb_no_full_wait_run) (simp add: cb_no_full_wait_def init_fields)
  from run_progress [OF sh reach_sem_inv cb first us posts, of ts']
    steps_left_bound [OF sh, of N] steps
  have "steps_left N (run ts' (run ts (init h d))) = 0" by simp
  then show ?thesis by (simp add: run_append steps_left_0)
qed

subsection \<open>From the push to the post\<close>

lemma callback_cb_posts:
  "count_list (cb_log (callback_step s)) (SemPost EventEmpty) =
     count_list (cb_log s) (SemPost EventEmpty)"
  by (cases "cb_pc s")
     (simp_all add: callback_step_def ops count_list_snoc split: option.split)

lemma forwarding_step:
  assumes "forwarding (pc s)" and "t = Producer \<longrightarrow> pc s \<noteq> L52_acquire"
  shows "forwarding (pc (step t s))"
    and "fwd_left (pc (step t s)) = fwd_left (pc s) - (if t = Producer then 1 else 0)"
    and "ruby_event (step t s) = ruby_event s"
    and "map fst (plog (step t s)) @ fwd_ops (pc (step t s)) (ruby_event s) =
           map fst (plog s) @ fwd_ops (pc s) (ruby_event s)"
    and "sink (step t s) = sink s @ (if t = Producer \<and> pc s = L51 then [ruby_event s] else [])"
    and "count_list (cb_log (step t s)) (SemPost EventEmpty) =
           count_list (cb_log s) (SemPost EventEmpty)"
  using assms
  by (cases t; cases "pc s";
      simp add: forwarding_def callback_frame callback_cb_posts producer_step_def ops)+

lemma forwarding_run:
  assumes "forwarding (pc s)" and "count_list us Producer = fwd_left (pc s)"
  shows "pc (run us s) = L52_acquire \<and>
         map fst (plog (run us s)) = map fst (plog s) @ fwd_ops (pc s) (ruby_event s) \<and>
         sink (run us s) = sink s @ (if pc s = L51 then [ruby_event s] else []) \<and>
         count_list (cb_log (run us s)) (SemPost EventEmpty) =
           count_list (cb_log s) (SemPost EventEmpty)"
  using assms
proof (induction us arbitrary: s)
  case Nil
  then show ?case by (cases "pc s") (simp_all add: forwarding_def)
next
  case (Cons t us)
  have ok: "t = Producer \<longrightarrow> pc s \<noteq> L52_acquire"
    using Cons.prems(2) by (cases t) auto
  note st = forwarding_step [OF Cons.prems(1) ok]
  from Cons.prems(2) st(2) have left: "count_list us Producer = fwd_left (pc (step t s))"
    by (cases t) auto
  note ih = Cons.IH [OF st(1) left]
  have moved: "pc (step t s) = L51 \<longrightarrow> pc s = L51 \<and> t = Callback"
    using Cons.prems(1) ok
    by (cases t; cases "pc s"; simp add: forwarding_def callback_frame producer_step_def ops)
  have stay: "t = Callback \<longrightarrow> pc (step t s) = pc s"
    by (simp add: callback_frame)
  show ?case
  proof (intro conjI)
    from ih show "pc (run (t # us) s) = L52_acquire" by simp
    from ih st(3,4) show "map fst (plog (run (t # us) s)) =
        map fst (plog s) @ fwd_ops (pc s) (ruby_event s)" by simp
    from ih st(3,5) moved stay show "sink (run (t # us) s) =
        sink s @ (if pc s = L51 then [ruby_event s] else [])"
      by (cases t) auto
    from ih st(6) show "count_list (cb_log (run (t # us) s)) (SemPost EventEmpty) =
        count_list (cb_log s) (SemPost EventEmpty)" by simp
  qed
qed

lemma push_then_post:
  assumes "pc s = L51" and "count_list us Producer = 3"
  shows "pc (run us s) = L52_acquire"
    and "map fst (plog (run us s)) =
           map fst (plog s) @ [Push (ruby_event s), SemPost EventEmpty]"
    and "sink (run us s) = sink s @ [ruby_event s]"
    and "posts_issued EventEmpty (run us s) = Suc (posts_issued EventEmpty s)"
proof -
  from assms have "forwarding (pc s)" and "count_list us Producer = fwd_left (pc s)"
    by (simp_all add: forwarding_def)
  from forwarding_run [OF this] assms(1)
  have r: "pc (run us s) = L52_acquire"
    "map fst (plog (run us s)) = map fst (plog s) @ [Push (ruby_event s), SemPost EventEmpty]"
    "sink (run us s) = sink s @ [ruby_event s]"
    "count_list (cb_log (run us s)) (SemPost EventEmpty) =
       count_list (cb_log s) (SemPost EventEmpty)"
    by simp_all
  from r show "pc (run us s) = L52_acquire"
    and "map fst (plog (run us s)) =
           map fst (plog s) @ [Push (ruby_event s), SemPost EventEmpty]"
    and "sink (run us s) = sink s @ [ruby_event s]" by simp_all
  from r(2,4) show "posts_issued EventEmpty (run us s) = Suc (posts_issued EventEmpty s)"
    by (simp add: posts_issued_def)
qed

lemma post_raises:
  "pc s = L52_call \<Longrightarrow>
     event_empty (session_data (producer_step s)) = Suc (event_empty (session_data s)) \<and>
     pc (producer_step s) = L52_acquire"
  "pc s = L51 \<Longrightarrow> pc (producer_step s) = L52_release"
  "pc s = L52_release \<Longrightarrow> pc (producer_step s) = L52_call"
  by (simp_all add: producer_step_def ops)

lemma cycle_after_push:
  "cycle w = p @ (Push v, g) # q \<Longrightarrow> q = [(SemPost EventEmpty, False)]"
  by (auto simp: cycle_def Cons_eq_append_conv)

lemma partial_after_push:
  "partial_cycle c w = p @ (Push v, g) # q \<Longrightarrow>
     q = [] \<and> c \<in> {L52_release, L52_call} \<or> q = [(SemPost EventEmpty, False)]"
  by (cases c) (auto simp: cycle_def Cons_eq_append_conv)

lemma after_push:
  assumes sh: "shape h d vs s" and dec: "plog s = pre @ (Push v, g) # post"
  shows "post = [] \<and> pc s \<in> {L52_release, L52_call} \<or>
         (\<exists>post'. post = (SemPost EventEmpty, False) # post')"
proof -
  from sh dec
  have "concat (map cycle vs) @ partial_cycle (pc s) (ruby_event s) = pre @ (Push v, g) # post"
    by (simp add: shape_def)
  from cycles_decomp [OF this] show ?thesis
  proof
    assume "\<exists>us w ws p q. vs = us @ w # ws \<and> cycle w = p @ (Push v, g) # q \<and>
      pre = concat (map cycle us) @ p \<and>
      post = q @ concat (map cycle ws) @ partial_cycle (pc s) (ruby_event s)"
    then obtain w ws p q where c: "cycle w = p @ (Push v, g) # q"
      and post: "post = q @ concat (map cycle ws) @ partial_cycle (pc s) (ruby_event s)"
      by blast
    from cycle_after_push [OF c] post show ?thesis by simp
  next
    assume "\<exists>p. partial_cycle (pc s) (ruby_event s) = p @ (Push v, g) # post \<and>
      pre = concat (map cycle vs) @ p"
    then obtain p where "partial_cycle (pc s) (ruby_event s) = p @ (Push v, g) # post"
      by blast
    from partial_after_push [OF this] show ?thesis by auto
  qed
qed

lemma posts_eq_sink:
  assumes "shape h d vs s"
  shows "count_list (map fst (plog s)) (SemPost EventEmpty) +
           (if pc s \<in> {L52_release, L52_call} then 1 else 0) = length (sink s)"
proof -
  from assms have "sink s =
      vs @ (if pc s \<in> {L52_release, L52_call, L52_acquire} then [ruby_event s] else [])"
    by (simp add: shape_def)
  then have "length (sink s) =
      length vs + (if pc s \<in> {L52_release, L52_call, L52_acquire} then 1 else 0)"
    by simp
  with shape_counts(3) [OF assms] show ?thesis by (cases "pc s") simp_all
qed

section \<open>The claims\<close>

text \<open>
  C1. When the handler yields \<open>N\<close> results other than nil (the list \<open>vs\<close>) and then
  nil, the Sink ends with exactly these \<open>N\<close> values, in the order the handler produced
  them. Runs end: under the fair schedule, and under any schedule once \<open>event_full\<close>
  has been posted \<open>N\<close> + 1 times and the producer is given nine steps per event after
  that. Every run that ends, under any schedule, ends with the queue \<open>vs\<close>; and at
  every moment of every run the queue is an initial segment of \<open>vs\<close>.
\<close>

theorem sink_receives_events_in_order:
  assumes "fst (handler_run h d (Suc N)) = vs @ [Qnil]" and "Qnil \<notin> set vs"
  shows "pc (run (lockstep (Suc N)) (init h d)) = Exited \<and>
         (\<forall>ts ts'. N < posts_issued EventFull (run ts (init h d)) \<and>
              9 * Suc N \<le> count_list ts' Producer \<longrightarrow>
            pc (run (ts @ ts') (init h d)) = Exited) \<and>
         (\<forall>ts. pc (run ts (init h d)) = Exited \<longrightarrow>
            sink (run ts (init h d)) = vs \<and> length (sink (run ts (init h d))) = N) \<and>
         (\<forall>ts. sink (run ts (init h d)) = take (length (sink (run ts (init h d)))) vs)"
proof (intro conjI allI impI)
  from assms(1) have "Qnil \<in> set (fst (handler_run h d (Suc N)))"
    by (simp del: handler_run.simps)
  then show "pc (run (lockstep (Suc N)) (init h d)) = Exited" by (rule lockstep_exits_init)
next
  fix ts ts'
  assume "N < posts_issued EventFull (run ts (init h d)) \<and>
    9 * Suc N \<le> count_list ts' Producer"
  then have "N < posts_issued EventFull (run ts (init h d))"
    and "9 * Suc N \<le> count_list ts' Producer" by simp_all
  with assms show "pc (run (ts @ ts') (init h d)) = Exited" by (rule exits_after_posts)
next
  fix ts assume "pc (run ts (init h d)) = Exited"
  with assms show q: "sink (run ts (init h d)) = vs" by (rule exit_sink)
  have "length (fst (handler_run h d (Suc N))) = Suc N" by (rule length_handler_run)
  with assms(1) q show "length (sink (run ts (init h d))) = N"
    by (simp del: handler_run.simps)
next
  fix ts
  from assms(1) show "sink (run ts (init h d)) = take (length (sink (run ts (init h d)))) vs"
    by (rule sink_prefix)
qed

theorem sink_receives_events_in_order_witness:
  "fst (handler_run scripted [Obj 1, Obj 2, Qnil] (Suc 2)) = [Obj 1, Obj 2] @ [Qnil] \<and>
   Qnil \<notin> set [Obj 1, Obj 2] \<and>
   pc (run (lockstep (Suc 2)) (init scripted [Obj 1, Obj 2, Qnil])) = Exited \<and>
   2 < posts_issued EventFull (run (lockstep 3) (init scripted [Obj 1, Obj 2, Qnil])) \<and>
   9 * Suc 2 \<le> count_list (lockstep 3) Producer \<and>
   pc (run (lockstep 3 @ lockstep 3) (init scripted [Obj 1, Obj 2, Qnil])) = Exited \<and>
   sink (run (lockstep (Suc 2)) (init scripted [Obj 1, Obj 2, Qnil])) = [Obj 1, Obj 2] \<and>
   length (sink (run (lockstep (Suc 2)) (init scripted [Obj 1, Obj 2, Qnil]))) = 2"
proof -
  have a: "fst (handler_run scripted [Obj 1, Obj 2, Qnil] (Suc 2)) = [Obj 1, Obj 2] @ [Qnil]"
    by code_simp
  have b: "Qnil \<notin> set [Obj 1, Obj 2]" by simp
  have c: "2 < posts_issued EventFull (run (lockstep 3) (init scripted [Obj 1, Obj 2, Qnil]))"
    by code_simp
  have e: "9 * Suc 2 \<le> count_list (lockstep 3) Producer" by code_simp
  from sink_receives_events_in_order [OF a b] a b c e show ?thesis by blast
qed

text \<open>
  C2, as the spec states it: the producer releases the GVL for the wait on
  \<open>event_full\<close> only. The code does not: line 52 posts \<open>event_empty\<close> through
  \<^verbatim>\<open>hn_proc_without_gvl\<close> as well. After one event the log holds the post of
  \<open>event_empty\<close> with the GVL released, and the state before the post (seven producer
  steps into the first cycle) is at the call of \<^verbatim>\<open>hn_sem_post\<close> without the GVL.
\<close>

theorem post_runs_without_gvl:
  "(SemPost EventEmpty, False) \<in> set (plog (run (lockstep 1) (init scripted [Obj 7, Qnil]))) \<and>
   SemPost EventEmpty \<noteq> SemWait EventFull \<and>
   pc (run (replicate 3 Callback @ replicate 7 Producer) (init scripted [Obj 7, Qnil])) = L52_call \<and>
   \<not> gvl (run (replicate 3 Callback @ replicate 7 Producer) (init scripted [Obj 7, Qnil]))"
  by code_simp

text \<open>
  C2, amended. The producer releases the GVL for the duration of the wait on
  \<open>event_full\<close> (line 42) and of the post of \<open>event_empty\<close> (line 52), and for
  nothing else: in every run, the log's entries without the GVL are exactly the waits on
  \<open>event_full\<close> and the posts of \<open>event_empty\<close> (the handler's call, the push and the
  return hold it), and the producer is without the GVL exactly between the release and
  the reacquisition of those two lines.
\<close>

theorem gvl_released_for_wait_and_post:
  "(\<forall>x g. (x, g) \<in> set (plog (run ts (init h d))) \<longrightarrow>
      g = (x \<noteq> SemWait EventFull \<and> x \<noteq> SemPost EventEmpty)) \<and>
   gvl (run ts (init h d)) =
     (pc (run ts (init h d)) \<notin> {L42_call, L42_acquire, L52_call, L52_acquire})"
proof -
  obtain vs where sh: "shape h d vs (run ts (init h d))" by (rule reach_shape)
  have "g = (x \<noteq> SemWait EventFull \<and> x \<noteq> SemPost EventEmpty)"
    if "(x, g) \<in> set (plog (run ts (init h d)))" for x g
    using plog_member [OF sh that] by auto
  moreover from sh have "gvl (run ts (init h d)) =
     (pc (run ts (init h d)) \<notin> {L42_call, L42_acquire, L52_call, L52_acquire})"
    by (simp add: shape_def)
  ultimately show ?thesis by blast
qed

theorem gvl_released_for_wait_and_post_witness:
  "(Handler (Obj 7), True) \<in> set (plog (run (lockstep 1) (init scripted [Obj 7, Qnil]))) \<and>
   (Push (Obj 7), True) \<in> set (plog (run (lockstep 1) (init scripted [Obj 7, Qnil]))) \<and>
   (SemWait EventFull, False) \<in> set (plog (run (lockstep 1) (init scripted [Obj 7, Qnil]))) \<and>
   (Handler (Obj 7), False) \<notin> set (plog (run (lockstep 1) (init scripted [Obj 7, Qnil]))) \<and>
   (Push (Obj 7), False) \<notin> set (plog (run (lockstep 1) (init scripted [Obj 7, Qnil]))) \<and>
   (SemWait EventFull, True) \<notin> set (plog (run (lockstep 1) (init scripted [Obj 7, Qnil]))) \<and>
   gvl (run (lockstep 1) (init scripted [Obj 7, Qnil]))"
proof -
  have "(Handler (Obj 7), True) \<in> set (plog (run (lockstep 1) (init scripted [Obj 7, Qnil])))"
    and "(Push (Obj 7), True) \<in> set (plog (run (lockstep 1) (init scripted [Obj 7, Qnil])))"
    and "(SemWait EventFull, False) \<in> set (plog (run (lockstep 1) (init scripted [Obj 7, Qnil])))"
    and "pc (run (lockstep 1) (init scripted [Obj 7, Qnil])) = L42_release"
    by code_simp+
  with gvl_released_for_wait_and_post [of "lockstep 1" scripted "[Obj 7, Qnil]"]
  show ?thesis by auto
qed

text \<open>
  C3. A nil result ends the loop in the same cycle and no post of \<open>event_empty\<close>
  follows it. From any state about to call a handler that returns nil, three steps of the
  producer (the call, the test of line 48, the return of line 55), however interleaved
  with the callback, take it to the exit, and no continuation changes the queue or adds a
  post of \<open>event_empty\<close> to the log. In every run, what follows a nil result in the
  producer's log is nothing or the return alone. When the first result is nil, the run
  under the fair schedule exits, and in every run the queue stays empty and the log
  holds no post of \<open>event_empty\<close>.
\<close>

theorem terminal_result_ends_the_loop:
  "(pc s = L45 \<and> next_result s = Qnil \<longrightarrow>
      (3 \<le> count_list us Producer \<longrightarrow> pc (run us s) = Exited) \<and>
      sink (run us s) = sink s \<and>
      count_list (map fst (plog (run us s))) (SemPost EventEmpty) =
        count_list (map fst (plog s)) (SemPost EventEmpty)) \<and>
   (\<forall>pre g post. plog (run ts (init h d)) = pre @ (Handler Qnil, g) # post \<longrightarrow>
      post = [] \<or> post = [(Return Qtrue, True)]) \<and>
   (fst (h d) = Qnil \<longrightarrow>
      pc (run (lockstep 1) (init h d)) = Exited \<and>
      sink (run ts (init h d)) = [] \<and>
      count_list (map fst (plog (run ts (init h d)))) (SemPost EventEmpty) = 0)"
proof -
  obtain vs where sh: "shape h d vs (run ts (init h d))" by (rule reach_shape)
  have a: "(3 \<le> count_list us Producer \<longrightarrow> pc (run us s) = Exited) \<and>
      sink (run us s) = sink s \<and>
      count_list (map fst (plog (run us s))) (SemPost EventEmpty) =
        count_list (map fst (plog s)) (SemPost EventEmpty)"
    if at: "pc s = L45 \<and> next_result s = Qnil"
  proof -
    from at have w: "winding s" by (simp add: winding_def)
    from at have "pc (run us s) = Exited" if "3 \<le> count_list us Producer"
      using that by (intro winding_exits [OF w]) simp
    with winding_run(2,3) [OF w, of us] show ?thesis by simp
  qed
  have b: "post = [] \<or> post = [(Return Qtrue, True)]"
    if "plog (run ts (init h d)) = pre @ (Handler Qnil, g) # post" for pre g post
    using sh that by (rule after_nil_entry)
  have c: "pc (run (lockstep 1) (init h d)) = Exited \<and>
      sink (run ts (init h d)) = [] \<and>
      count_list (map fst (plog (run ts (init h d)))) (SemPost EventEmpty) = 0"
    if nil: "fst (h d) = Qnil"
  proof -
    from nil have "Qnil \<in> set (fst (handler_run h d 1))" by (simp add: split_beta)
    then have "pc (run (lockstep 1) (init h d)) = Exited" by (rule lockstep_exits_init)
    with first_result_nil [OF sh nil] show ?thesis by simp
  qed
  from a b c show ?thesis by blast
qed

theorem terminal_result_ends_the_loop_witness:
  "pc (run (replicate 3 Callback @ replicate 3 Producer) (init scripted [Qnil])) = L45 \<and>
   next_result (run (replicate 3 Callback @ replicate 3 Producer) (init scripted [Qnil])) = Qnil \<and>
   3 \<le> count_list [Producer, Callback, Producer, Producer] Producer \<and>
   pc (run [Producer, Callback, Producer, Producer]
        (run (replicate 3 Callback @ replicate 3 Producer) (init scripted [Qnil]))) = Exited \<and>
   fst (scripted [Qnil]) = Qnil \<and>
   pc (run (lockstep 1) (init scripted [Qnil])) = Exited \<and>
   sink (run (lockstep 1) (init scripted [Qnil])) = [] \<and>
   count_list (map fst (plog (run (lockstep 1) (init scripted [Qnil])))) (SemPost EventEmpty) = 0"
proof -
  have "pc (run (replicate 3 Callback @ replicate 3 Producer) (init scripted [Qnil])) = L45"
    and "next_result (run (replicate 3 Callback @ replicate 3 Producer) (init scripted [Qnil]))
           = Qnil"
    and "3 \<le> count_list [Producer, Callback, Producer, Producer] Producer"
    and "fst (scripted [Qnil]) = Qnil"
    by code_simp+
  with terminal_result_ends_the_loop
         [of "run (replicate 3 Callback @ replicate 3 Producer) (init scripted [Qnil])"
             "[Producer, Callback, Producer, Producer]" "lockstep 1" scripted "[Qnil]"]
  show ?thesis by simp
qed

text \<open>
  C4. In every cycle that forwards an event, the post of \<open>event_empty\<close> follows the
  append to the Sink, so the callback does not enqueue the data of event N+1 before event
  N is forwarded. Line 51 leads to line 52 and line 52 raises the count of
  \<open>event_empty\<close> by one; the count changes under the producer there only, and line 52
  is reached from the push of line 51 only. From any state at the push, three steps of
  the producer, however interleaved with the callback, append the value and then post
  \<open>event_empty\<close>, in this order. In every run, each post of \<open>event_empty\<close> in the
  producer's log comes right after a push, and each push is followed at once by the post,
  or is the last entry while the producer is between the two lines; the posts and the
  push still waiting for its post add up to the length of the queue; the completed waits
  on \<open>event_empty\<close> and its count add up to one more than the posts issued; and the
  callback has filled its work queue at most once more than the producer has posted,
  hence at most once more than the queue is long.
\<close>

theorem post_follows_append:
  "(event_empty (session_data (producer_step s)) \<noteq> event_empty (session_data s) \<longrightarrow>
      pc s = L52_call) \<and>
   (pc (producer_step s) = L52_call \<longrightarrow> pc s = L52_release) \<and>
   (pc (producer_step s) = L52_release \<longrightarrow> pc s = L51) \<and>
   (pc s = L51 \<longrightarrow> pc (producer_step s) = L52_release) \<and>
   (pc s = L52_release \<longrightarrow> pc (producer_step s) = L52_call) \<and>
   (pc s = L52_call \<longrightarrow>
      event_empty (session_data (producer_step s)) = Suc (event_empty (session_data s)) \<and>
      pc (producer_step s) = L52_acquire) \<and>
   (pc s = L51 \<and> count_list us Producer = 3 \<longrightarrow>
      pc (run us s) = L52_acquire \<and>
      sink (run us s) = sink s @ [ruby_event s] \<and>
      map fst (plog (run us s)) =
        map fst (plog s) @ [Push (ruby_event s), SemPost EventEmpty] \<and>
      posts_issued EventEmpty (run us s) = Suc (posts_issued EventEmpty s)) \<and>
   (\<forall>pre g post. plog (run ts (init h d)) = pre @ (SemPost EventEmpty, g) # post \<longrightarrow>
      (\<exists>pre' v. pre = pre' @ [(Push v, True)])) \<and>
   (\<forall>pre v g post. plog (run ts (init h d)) = pre @ (Push v, g) # post \<longrightarrow>
      post = [] \<and> pc (run ts (init h d)) \<in> {L52_release, L52_call} \<or>
      (\<exists>post'. post = (SemPost EventEmpty, False) # post')) \<and>
   count_list (map fst (plog (run ts (init h d)))) (SemPost EventEmpty) +
       (if pc (run ts (init h d)) \<in> {L52_release, L52_call} then 1 else 0) =
     length (sink (run ts (init h d))) \<and>
   waits_done EventEmpty (run ts (init h d)) + event_empty (session_data (run ts (init h d))) =
     Suc (posts_issued EventEmpty (run ts (init h d))) \<and>
   count_list (map fst (plog (run ts (init h d)))) (SemPost EventEmpty) \<le>
     length (sink (run ts (init h d))) \<and>
   count_list (cb_log (run ts (init h d))) Fill \<le>
     Suc (count_list (map fst (plog (run ts (init h d)))) (SemPost EventEmpty)) \<and>
   count_list (cb_log (run ts (init h d))) Fill \<le> Suc (length (sink (run ts (init h d))))"
proof -
  obtain vs where sh: "shape h d vs (run ts (init h d))" by (rule reach_shape)
  have before: "\<exists>pre' v. pre = pre' @ [(Push v, True)]"
    if "plog (run ts (init h d)) = pre @ (SemPost EventEmpty, g) # post" for pre g post
    using sh that by (rule before_post)
  have after: "post = [] \<and> pc (run ts (init h d)) \<in> {L52_release, L52_call} \<or>
      (\<exists>post'. post = (SemPost EventEmpty, False) # post')"
    if "plog (run ts (init h d)) = pre @ (Push v, g) # post" for pre v g post
    using sh that by (rule after_push)
  have live: "pc (run us s) = L52_acquire \<and>
      sink (run us s) = sink s @ [ruby_event s] \<and>
      map fst (plog (run us s)) =
        map fst (plog s) @ [Push (ruby_event s), SemPost EventEmpty] \<and>
      posts_issued EventEmpty (run us s) = Suc (posts_issued EventEmpty s)"
    if "pc s = L51 \<and> count_list us Producer = 3"
    using push_then_post [of s us] that by blast
  have law: "waits_done EventEmpty (run ts (init h d)) +
      event_empty (session_data (run ts (init h d))) =
      Suc (posts_issued EventEmpty (run ts (init h d)))"
    using reach_sem_inv [of ts h d] by (simp add: sem_inv_def)
  note a = posts_le_sink [OF sh]
  note b = fills_le_posts [OF sh reach_sem_inv reach_cb_inv]
  from a b have c: "count_list (cb_log (run ts (init h d))) Fill \<le>
      Suc (length (sink (run ts (init h d))))" by simp
  note e = posts_eq_sink [OF sh]
  from before after live law a b c e post_step [of s] post_raises [of s]
  show ?thesis by blast
qed

theorem post_follows_append_witness:
  "plog (run (lockstep 1) (init scripted [Obj 7, Qnil])) =
     [(SemWait EventFull, False), (Handler (Obj 7), True), (Push (Obj 7), True)] @
       (SemPost EventEmpty, False) # [] \<and>
   (\<exists>pre' v. [(SemWait EventFull, False), (Handler (Obj 7), True), (Push (Obj 7), True)] =
      pre' @ [(Push v, True)]) \<and>
   pc (producer_step (run (replicate 3 Callback @ replicate 6 Producer)
        (init scripted [Obj 7, Qnil]))) = L52_call \<and>
   pc (run (replicate 3 Callback @ replicate 6 Producer) (init scripted [Obj 7, Qnil])) =
     L52_release \<and>
   pc (run (replicate 3 Callback @ replicate 5 Producer) (init scripted [Obj 7, Qnil])) = L51 \<and>
   count_list [Producer, Callback, Producer, Producer] Producer = 3 \<and>
   pc (run [Producer, Callback, Producer, Producer]
        (run (replicate 3 Callback @ replicate 5 Producer) (init scripted [Obj 7, Qnil]))) =
     L52_acquire \<and>
   posts_issued EventEmpty (run [Producer, Callback, Producer, Producer]
        (run (replicate 3 Callback @ replicate 5 Producer) (init scripted [Obj 7, Qnil]))) =
     Suc (posts_issued EventEmpty
        (run (replicate 3 Callback @ replicate 5 Producer) (init scripted [Obj 7, Qnil]))) \<and>
   pc (run (replicate 3 Callback @ replicate 7 Producer) (init scripted [Obj 7, Qnil])) =
     L52_call \<and>
   event_empty (session_data (producer_step
        (run (replicate 3 Callback @ replicate 7 Producer) (init scripted [Obj 7, Qnil])))) =
     Suc (event_empty (session_data
        (run (replicate 3 Callback @ replicate 7 Producer) (init scripted [Obj 7, Qnil])))) \<and>
   count_list (cb_log (run (lockstep 1) (init scripted [Obj 7, Qnil]))) Fill \<le>
     Suc (length (sink (run (lockstep 1) (init scripted [Obj 7, Qnil]))))"
proof -
  have "plog (run (lockstep 1) (init scripted [Obj 7, Qnil])) =
     [(SemWait EventFull, False), (Handler (Obj 7), True), (Push (Obj 7), True)] @
       (SemPost EventEmpty, False) # []"
    and "pc (producer_step (run (replicate 3 Callback @ replicate 6 Producer)
        (init scripted [Obj 7, Qnil]))) = L52_call"
    and "pc (run (replicate 3 Callback @ replicate 5 Producer) (init scripted [Obj 7, Qnil])) =
      L51"
    and "count_list [Producer, Callback, Producer, Producer] Producer = 3"
    and "pc (run (replicate 3 Callback @ replicate 7 Producer) (init scripted [Obj 7, Qnil])) =
      L52_call"
    by code_simp+
  with post_follows_append
         [of "run (replicate 3 Callback @ replicate 6 Producer) (init scripted [Obj 7, Qnil])"
             "[]" "lockstep 1" scripted "[Obj 7, Qnil]"]
       post_follows_append
         [of "run (replicate 3 Callback @ replicate 5 Producer) (init scripted [Obj 7, Qnil])"
             "[Producer, Callback, Producer, Producer]" "lockstep 1" scripted "[Obj 7, Qnil]"]
       post_follows_append
         [of "run (replicate 3 Callback @ replicate 7 Producer) (init scripted [Obj 7, Qnil])"
             "[]" "lockstep 1" scripted "[Obj 7, Qnil]"]
  show ?thesis by blast
qed

text \<open>
  C5. Every dispatch follows one completed wait on \<open>event_full\<close>, and every completed
  wait consumes one post. Line 45 is reached from the reacquisition of line 42 only, and
  that from a wait that found the count positive and lowered it by one; with the count at
  zero the producer stays in the wait. In every run, each handler call in the log comes
  right after a wait on \<open>event_full\<close>, and the waits up to it are one per handler call;
  the completed waits and the count of \<open>event_full\<close> add up to the posts issued; so the
  dispatches never exceed the posts of \<open>event_full\<close>.
\<close>

theorem dispatch_consumes_one_post:
  "(pc (producer_step s) = L45 \<longrightarrow> pc s = L42_acquire) \<and>
   (pc (producer_step s) = L42_acquire \<longrightarrow> pc s = L42_call \<and> 0 < event_full (session_data s)) \<and>
   (pc s = L42_call \<and> event_full (session_data s) = 0 \<longrightarrow> producer_step s = s) \<and>
   (pc s = L42_call \<and> 0 < event_full (session_data s) \<longrightarrow>
      event_full (session_data (producer_step s)) = event_full (session_data s) - 1) \<and>
   (\<forall>pre v g post. plog (run ts (init h d)) = pre @ (Handler v, g) # post \<longrightarrow>
      (\<exists>pre'. pre = pre' @ [(SemWait EventFull, False)]) \<and>
      count_list (map fst pre) (SemWait EventFull) = Suc (length (filter is_dispatch pre))) \<and>
   waits_done EventFull (run ts (init h d)) + event_full (session_data (run ts (init h d))) =
     posts_issued EventFull (run ts (init h d)) \<and>
   dispatches (run ts (init h d)) \<le> posts_issued EventFull (run ts (init h d))"
proof -
  obtain vs where sh: "shape h d vs (run ts (init h d))" by (rule reach_shape)
  have si: "sem_inv (run ts (init h d))" by (rule reach_sem_inv)
  have "(\<exists>pre'. pre = pre' @ [(SemWait EventFull, False)]) \<and>
      count_list (map fst pre) (SemWait EventFull) = Suc (length (filter is_dispatch pre))"
    if "plog (run ts (init h d)) = pre @ (Handler v, g) # post" for pre v g post
    using before_dispatch [OF sh that] by blast
  moreover from si have "waits_done EventFull (run ts (init h d)) +
      event_full (session_data (run ts (init h d))) = posts_issued EventFull (run ts (init h d))"
    by (simp add: sem_inv_def)
  moreover note dispatches_le_posts [OF sh si]
  ultimately show ?thesis using wait_step [of s] by blast
qed

theorem dispatch_consumes_one_post_witness:
  "pc (run [Producer] (init scripted [Obj 7, Qnil])) = L42_call \<and>
   event_full (session_data (run [Producer] (init scripted [Obj 7, Qnil]))) = 0 \<and>
   producer_step (run [Producer] (init scripted [Obj 7, Qnil])) =
     run [Producer] (init scripted [Obj 7, Qnil]) \<and>
   plog (run (lockstep 1) (init scripted [Obj 7, Qnil])) =
     [(SemWait EventFull, False)] @ (Handler (Obj 7), True) #
       [(Push (Obj 7), True), (SemPost EventEmpty, False)] \<and>
   count_list (map fst [(SemWait EventFull, False)]) (SemWait EventFull) =
     Suc (length (filter is_dispatch [(SemWait EventFull, False)])) \<and>
   dispatches (run (lockstep 1) (init scripted [Obj 7, Qnil])) \<le>
     posts_issued EventFull (run (lockstep 1) (init scripted [Obj 7, Qnil]))"
proof -
  have "pc (run [Producer] (init scripted [Obj 7, Qnil])) = L42_call"
    and "event_full (session_data (run [Producer] (init scripted [Obj 7, Qnil]))) = 0"
    and "plog (run (lockstep 1) (init scripted [Obj 7, Qnil])) =
      [(SemWait EventFull, False)] @ (Handler (Obj 7), True) #
        [(Push (Obj 7), True), (SemPost EventEmpty, False)]"
    by code_simp+
  with dispatch_consumes_one_post
         [of "run [Producer] (init scripted [Obj 7, Qnil])" "lockstep 1" scripted "[Obj 7, Qnil]"]
  show ?thesis by blast
qed

text \<open>
  C6. The scenario of three events. The semaphores start at \<open>event_full\<close> = 0 and
  \<open>event_empty\<close> = 1 and the handler returns \<open>A\<close>, \<open>B\<close>, then nil. Under the fair
  schedule the callback posts \<open>event_full\<close> three times and the producer exits; under
  any schedule, once \<open>event_full\<close> has been posted three times, 27 further steps of
  the producer take it to the exit. In every run that ends, under any schedule, the queue
  is \<open>[A, B]\<close>, the handler has been called exactly three times, at least three posts
  of \<open>event_full\<close> have been issued and the producer returned \<open>Qtrue\<close>.
\<close>

theorem three_events_scenario:
  assumes "fst (handler_run h d 3) = [A, B, Qnil]" and "A \<noteq> Qnil" and "B \<noteq> Qnil"
  shows "event_full (session_data (init h d)) = 0 \<and>
         event_empty (session_data (init h d)) = 1 \<and>
         sink (init h d) = [] \<and>
         pc (run (lockstep 3) (init h d)) = Exited \<and>
         posts_issued EventFull (run (lockstep 3) (init h d)) = 3 \<and>
         (\<forall>ts ts'. 3 \<le> posts_issued EventFull (run ts (init h d)) \<and>
              27 \<le> count_list ts' Producer \<longrightarrow>
            pc (run (ts @ ts') (init h d)) = Exited) \<and>
         (\<forall>ts. pc (run ts (init h d)) = Exited \<longrightarrow>
            sink (run ts (init h d)) = [A, B] \<and>
            dispatches (run ts (init h d)) = 3 \<and>
            3 \<le> posts_issued EventFull (run ts (init h d)) \<and>
            retval (run ts (init h d)) = Some Qtrue)"
proof -
  have three: "Suc 2 = (3::nat)" by simp
  from assms(1) have first: "fst (handler_run h d (Suc 2)) = [A, B] @ [Qnil]"
    by (simp only: three append.simps)
  from assms(2,3) have nn: "Qnil \<notin> set [A, B]" by auto
  have "fst (handler_run h d 2) = take 2 (fst (handler_run h d (Suc 2)))"
    by (rule handler_run_le) simp
  with first have two: "fst (handler_run h d 2) = [A, B]" by (simp del: handler_run.simps)
  from first have "Qnil \<in> set (fst (handler_run h d (Suc 2)))" by (simp del: handler_run.simps)
  then have "pc (run (lockstep (Suc 2)) (init h d)) = Exited" by (rule lockstep_exits_init)
  then have ex: "pc (run (lockstep 3) (init h d)) = Exited" by (simp only: three)
  from two nn have "Qnil \<notin> set (fst (handler_run h d 2))" by simp
  then have "posts_issued EventFull (run (lockstep (Suc 2)) (init h d)) = Suc 2"
    by (rule lockstep_posts_init)
  then have posts: "posts_issued EventFull (run (lockstep 3) (init h d)) = 3"
    by (simp only: three)
  have fin: "sink (run ts (init h d)) = [A, B] \<and> dispatches (run ts (init h d)) = 3 \<and>
      3 \<le> posts_issued EventFull (run ts (init h d)) \<and>
      retval (run ts (init h d)) = Some Qtrue"
    if e: "pc (run ts (init h d)) = Exited" for ts
  proof -
    obtain vs where sh: "shape h d vs (run ts (init h d))" by (rule reach_shape)
    from first nn e have q: "sink (run ts (init h d)) = [A, B]" by (rule exit_sink)
    with shape_exited(4) [OF sh e] have vs: "vs = [A, B]" by simp
    from shape_counts(2) [OF sh] e vs have n: "dispatches (run ts (init h d)) = 3"
      by (simp add: called_def)
    from dispatches_le_posts [OF sh reach_sem_inv] n
    have "3 \<le> posts_issued EventFull (run ts (init h d))" by simp
    with q n shape_exited(1) [OF sh e] show ?thesis by simp
  qed
  have live: "pc (run (ts @ ts') (init h d)) = Exited"
    if "3 \<le> posts_issued EventFull (run ts (init h d)) \<and> 27 \<le> count_list ts' Producer"
    for ts ts'
  proof -
    from that have "2 < posts_issued EventFull (run ts (init h d))"
      and "9 * Suc 2 \<le> count_list ts' Producer" by simp_all
    with first nn show ?thesis by (rule exits_after_posts)
  qed
  from ex posts fin live show ?thesis by (simp add: init_fields)
qed

theorem three_events_scenario_witness:
  "fst (handler_run scripted [Obj 1, Obj 2, Qnil] 3) = [Obj 1, Obj 2, Qnil] \<and>
   Obj 1 \<noteq> Qnil \<and> Obj 2 \<noteq> Qnil \<and>
   pc (run (lockstep 3) (init scripted [Obj 1, Obj 2, Qnil])) = Exited \<and>
   posts_issued EventFull (run (lockstep 3) (init scripted [Obj 1, Obj 2, Qnil])) = 3 \<and>
   27 \<le> count_list (replicate 27 Producer) Producer \<and>
   pc (run (lockstep 3 @ replicate 27 Producer) (init scripted [Obj 1, Obj 2, Qnil])) = Exited \<and>
   sink (run (lockstep 3) (init scripted [Obj 1, Obj 2, Qnil])) = [Obj 1, Obj 2] \<and>
   dispatches (run (lockstep 3) (init scripted [Obj 1, Obj 2, Qnil])) = 3"
proof -
  have a: "fst (handler_run scripted [Obj 1, Obj 2, Qnil] 3) = [Obj 1, Obj 2, Qnil]"
    by code_simp
  have b: "Obj 1 \<noteq> Qnil" and c: "Obj 2 \<noteq> Qnil" by simp_all
  have e: "27 \<le> count_list (replicate 27 Producer) Producer" by code_simp
  from three_events_scenario [OF a b c] a e show ?thesis by simp
qed

text \<open>
  C7. The producer leaves its loop only through the \<^verbatim>\<open>break\<close> of line 48, taken when the
  handler returned nil, and then returns \<^verbatim>\<open>Qtrue\<close>. Line 55 is reached from line 48
  with a nil \<open>ruby_event\<close> only, the exit from line 55 only, and the return value set
  there is \<open>Qtrue\<close>. In every run, a producer that has exited returned \<open>Qtrue\<close> right
  after a handler call that returned nil; one that has not exited has returned
  nothing; and a handler that never returns nil keeps the producer in its loop.
\<close>

theorem exit_only_after_terminal_result:
  "(pc (producer_step s) = L55 \<longrightarrow> pc s = L48 \<and> ruby_event s = Qnil) \<and>
   (pc (producer_step s) = Exited \<longrightarrow> pc s = L55 \<or> pc s = Exited) \<and>
   (pc s = L55 \<longrightarrow> retval (producer_step s) = Some Qtrue) \<and>
   (pc (run ts (init h d)) = Exited \<longrightarrow>
      retval (run ts (init h d)) = Some Qtrue \<and>
      (\<exists>pre. plog (run ts (init h d)) = pre @ [(Handler Qnil, True), (Return Qtrue, True)])) \<and>
   (pc (run ts (init h d)) \<noteq> Exited \<longrightarrow> retval (run ts (init h d)) = None) \<and>
   ((\<forall>n. Qnil \<notin> set (fst (handler_run h d n))) \<longrightarrow> pc (run ts (init h d)) \<noteq> Exited)"
proof -
  obtain vs where sh: "shape h d vs (run ts (init h d))" by (rule reach_shape)
  have a: "retval (run ts (init h d)) = Some Qtrue \<and>
      (\<exists>pre. plog (run ts (init h d)) = pre @ [(Handler Qnil, True), (Return Qtrue, True)])"
    if "pc (run ts (init h d)) = Exited"
    using shape_exited(1,2) [OF sh that] by blast
  have b: "retval (run ts (init h d)) = None" if "pc (run ts (init h d)) \<noteq> Exited"
    using sh that by (rule shape_retval)
  have c: "pc (run ts (init h d)) \<noteq> Exited" if never: "\<forall>n. Qnil \<notin> set (fst (handler_run h d n))"
  proof
    assume "pc (run ts (init h d)) = Exited"
    from shape_exited(3) [OF sh this]
    have "Qnil \<in> set (fst (handler_run h d (Suc (length vs))))" by (simp del: handler_run.simps)
    with never show False by blast
  qed
  from a b c show ?thesis by (simp add: exit_steps)
qed

theorem exit_only_after_terminal_result_witness:
  "pc (run (lockstep 1) (init scripted [Qnil])) = Exited \<and>
   retval (run (lockstep 1) (init scripted [Qnil])) = Some Qtrue \<and>
   (\<exists>pre. plog (run (lockstep 1) (init scripted [Qnil])) =
      pre @ [(Handler Qnil, True), (Return Qtrue, True)]) \<and>
   pc (run (replicate 3 Callback @ replicate 5 Producer) (init scripted [Qnil])) = L55 \<and>
   retval (run (replicate 3 Callback @ replicate 5 Producer) (init scripted [Qnil])) = None \<and>
   retval (producer_step (run (replicate 3 Callback @ replicate 5 Producer) (init scripted [Qnil])))
     = Some Qtrue"
proof -
  have "pc (run (lockstep 1) (init scripted [Qnil])) = Exited"
    and "pc (run (replicate 3 Callback @ replicate 5 Producer) (init scripted [Qnil])) = L55"
    by code_simp+
  with exit_only_after_terminal_result
         [of "run (replicate 3 Callback @ replicate 5 Producer) (init scripted [Qnil])"
             "lockstep 1" scripted "[Qnil]"]
       exit_only_after_terminal_result
         [of "run (replicate 3 Callback @ replicate 5 Producer) (init scripted [Qnil])"
             "replicate 3 Callback @ replicate 5 Producer" scripted "[Qnil]"]
  show ?thesis by simp
qed

text \<open>
  C8. The terminal marker is never appended to the Sink. The test of line 48 sends a nil
  result to line 55, past the push of line 51; from a dispatch whose handler returns nil
  on, the queue never changes; and in every run the queue holds no nil and the log holds
  no push of nil.
\<close>

theorem nil_is_never_appended:
  "(pc s = L48 \<and> ruby_event s = Qnil \<longrightarrow>
      pc (producer_step s) = L55 \<and> sink (producer_step s) = sink s) \<and>
   (pc s = L45 \<and> next_result s = Qnil \<longrightarrow> sink (run us s) = sink s) \<and>
   Qnil \<notin> set (sink (run ts (init h d))) \<and>
   (\<forall>g. (Push Qnil, g) \<notin> set (plog (run ts (init h d))))"
proof -
  obtain vs where sh: "shape h d vs (run ts (init h d))" by (rule reach_shape)
  have "Qnil \<notin> set (sink (run ts (init h d)))"
    using sh by (rule shape_sink_no_nil)
  moreover have "(Push Qnil, g) \<notin> set (plog (run ts (init h d)))" for g
    using plog_member [OF sh, of "Push Qnil" g] by auto
  moreover have "sink (run us s) = sink s" if "pc s = L45 \<and> next_result s = Qnil"
    using that by (intro winding_run(2)) (simp add: winding_def)
  ultimately show ?thesis by (simp add: producer_step_def)
qed

theorem nil_is_never_appended_witness:
  "pc (run (replicate 3 Callback @ replicate 3 Producer) (init scripted [Qnil])) = L45 \<and>
   next_result (run (replicate 3 Callback @ replicate 3 Producer) (init scripted [Qnil])) = Qnil \<and>
   sink (run (replicate 9 Producer)
          (run (replicate 3 Callback @ replicate 3 Producer) (init scripted [Qnil]))) =
     sink (run (replicate 3 Callback @ replicate 3 Producer) (init scripted [Qnil])) \<and>
   pc (run (replicate 3 Callback @ replicate 4 Producer) (init scripted [Qnil])) = L48 \<and>
   ruby_event (run (replicate 3 Callback @ replicate 4 Producer) (init scripted [Qnil])) = Qnil \<and>
   pc (producer_step (run (replicate 3 Callback @ replicate 4 Producer) (init scripted [Qnil])))
     = L55"
proof -
  have "pc (run (replicate 3 Callback @ replicate 3 Producer) (init scripted [Qnil])) = L45"
    and "next_result (run (replicate 3 Callback @ replicate 3 Producer) (init scripted [Qnil]))
           = Qnil"
    and "pc (run (replicate 3 Callback @ replicate 4 Producer) (init scripted [Qnil])) = L48"
    and "ruby_event (run (replicate 3 Callback @ replicate 4 Producer) (init scripted [Qnil]))
           = Qnil"
    by code_simp+
  with nil_is_never_appended
         [of "run (replicate 3 Callback @ replicate 3 Producer) (init scripted [Qnil])"
             "replicate 9 Producer" "[]" scripted "[]"]
       nil_is_never_appended
         [of "run (replicate 3 Callback @ replicate 4 Producer) (init scripted [Qnil])"
             "[]" "[]" scripted "[]"]
  show ?thesis by simp
qed

text \<open>
  C9. The value appended to the Sink in a forwarding cycle is the value the handler
  returned. At line 45 the handler's result goes to \<open>ruby_event\<close>, the test of line 48
  leaves it alone and line 51 appends it. In every run the push of a value \<open>v\<close> comes
  right after the handler call that returned \<open>v\<close>, and the queue is, at all times,
  the list of the first results of the handler.
\<close>

theorem forwarded_value_is_handler_result:
  "(pc s = L45 \<longrightarrow> ruby_event (producer_step s) = next_result s) \<and>
   (pc s = L48 \<longrightarrow> ruby_event (producer_step s) = ruby_event s) \<and>
   (pc s = L51 \<longrightarrow> sink (producer_step s) = sink s @ [ruby_event s]) \<and>
   (\<forall>pre v g post. plog (run ts (init h d)) = pre @ (Push v, g) # post \<longrightarrow>
      (\<exists>pre'. pre = pre' @ [(Handler v, True)])) \<and>
   sink (run ts (init h d)) = fst (handler_run h d (length (sink (run ts (init h d)))))"
proof -
  obtain vs where sh: "shape h d vs (run ts (init h d))" by (rule reach_shape)
  have "\<exists>pre'. pre = pre' @ [(Handler v, True)]"
    if "plog (run ts (init h d)) = pre @ (Push v, g) # post" for pre v g post
    using plog_entry [OF sh that] by auto
  with shape_sink [OF sh] show ?thesis
    by (simp add: push_step handler_step test_step)
qed

theorem forwarded_value_is_handler_result_witness:
  "plog (run (lockstep 1) (init scripted [Obj 7, Qnil])) =
     [(SemWait EventFull, False), (Handler (Obj 7), True)] @
       (Push (Obj 7), True) # [(SemPost EventEmpty, False)] \<and>
   (\<exists>pre'. [(SemWait EventFull, False), (Handler (Obj 7), True)] = pre' @ [(Handler (Obj 7), True)]) \<and>
   sink (run (lockstep 1) (init scripted [Obj 7, Qnil])) = [Obj 7]"
proof -
  have log: "plog (run (lockstep 1) (init scripted [Obj 7, Qnil])) =
     [(SemWait EventFull, False), (Handler (Obj 7), True)] @
       (Push (Obj 7), True) # [(SemPost EventEmpty, False)]"
    by code_simp
  have q: "sink (run (lockstep 1) (init scripted [Obj 7, Qnil])) = [Obj 7]"
    by code_simp
  from forwarded_value_is_handler_result [of _ "lockstep 1" scripted "[Obj 7, Qnil]"] log q
  show ?thesis by blast
qed

text \<open>
  C10. The producer waits on \<open>event_full\<close> only and posts \<open>event_empty\<close> only. In
  every run, a semaphore operation in the producer's log is a wait on \<open>event_full\<close> or a
  post of \<open>event_empty\<close>; and no step of the producer, from any state, raises the count
  of \<open>event_full\<close> or lowers the count of \<open>event_empty\<close>.
\<close>

theorem producer_semaphore_discipline:
  "(\<forall>x g. (x, g) \<in> set (plog (run ts (init h d))) \<longrightarrow>
      (\<forall>sem. (x = SemWait sem \<longrightarrow> sem = EventFull) \<and> (x = SemPost sem \<longrightarrow> sem = EventEmpty))) \<and>
   event_full (session_data (producer_step s)) \<le> event_full (session_data s) \<and>
   event_empty (session_data s) \<le> event_empty (session_data (producer_step s))"
proof -
  obtain vs where sh: "shape h d vs (run ts (init h d))" by (rule reach_shape)
  have "(x = SemWait sem \<longrightarrow> sem = EventFull) \<and> (x = SemPost sem \<longrightarrow> sem = EventEmpty)"
    if "(x, g) \<in> set (plog (run ts (init h d)))" for x g sem
    using plog_member [OF sh that] by auto
  then show ?thesis by (simp add: producer_full_empty)
qed

theorem producer_semaphore_discipline_witness:
  "(SemWait EventFull, False) \<in> set (plog (run (lockstep 1) (init scripted [Obj 7, Qnil]))) \<and>
   (SemPost EventEmpty, False) \<in> set (plog (run (lockstep 1) (init scripted [Obj 7, Qnil]))) \<and>
   (SemWait EventEmpty, False) \<notin> set (plog (run (lockstep 1) (init scripted [Obj 7, Qnil]))) \<and>
   (SemPost EventFull, False) \<notin> set (plog (run (lockstep 1) (init scripted [Obj 7, Qnil])))"
proof -
  have "(SemWait EventFull, False) \<in> set (plog (run (lockstep 1) (init scripted [Obj 7, Qnil])))"
    and "(SemPost EventEmpty, False) \<in> set (plog (run (lockstep 1) (init scripted [Obj 7, Qnil])))"
    by code_simp+
  with producer_semaphore_discipline [of "lockstep 1" scripted "[Obj 7, Qnil]"]
  show ?thesis by blast
qed

end
